theory Spec2Isabelle
  imports Main
begin

section \<open>Regular expressions of the rule table\<close>

text \<open>
  The rules of \<^verbatim>\<open>antlrLanguage\<close> are JavaScript regular expressions. Only the
  constructs the table uses are modelled: literal characters, character classes,
  \<^verbatim>\<open>.\<close>, the anchors \<^verbatim>\<open>^\<close> and \<^verbatim>\<open>$\<close> (the engine compiles every
  pattern with the multi-line flag), \<^verbatim>\<open>\b\<close>, \<^verbatim>\<open>\B\<close>, sequence, alternation and the
  greedy star. Characters are 8-bit: the line terminators are LF and CR, the white space
  of \<^verbatim>\<open>\s\<close> is TAB, LF, VT, FF, CR, space and NBSP.
\<close>

datatype regex =
    Eps
  | Chr char
  | Cls "(char \<times> char) list"
  | Dot
  | Bol
  | Eol
  | WordB
  | NonWordB
  | Seq regex regex
  | Alt regex regex
  | Star regex

definition in_ranges :: "char \<Rightarrow> (char \<times> char) list \<Rightarrow> bool" where
  "in_ranges c rs =
     list_ex (\<lambda>r. (of_char (fst r) :: nat) \<le> of_char c \<and> (of_char c :: nat) \<le> of_char (snd r)) rs"

definition line_terminator :: "char \<Rightarrow> bool" where
  "line_terminator c = (c = CHR 0x0A \<or> c = CHR 0x0D)"

definition word_char :: "char \<Rightarrow> bool" where
  "word_char c =
     in_ranges c [(CHR ''a'', CHR ''z''), (CHR ''A'', CHR ''Z''), (CHR ''0'', CHR ''9''),
                  (CHR ''_'', CHR ''_'')]"

definition word_before :: "char option \<Rightarrow> bool" where
  "word_before p = (case p of None \<Rightarrow> False | Some c \<Rightarrow> word_char c)"

definition word_after :: "string \<Rightarrow> bool" where
  "word_after s = (case s of [] \<Rightarrow> False | c # _ \<Rightarrow> word_char c)"

text \<open>
  \<open>matches r p s\<close> runs \<open>r\<close> at the head of \<open>s\<close>, where \<open>p\<close> is the character just
  before \<open>s\<close> in the whole input (\<open>None\<close> at its start). It returns every way the
  pattern can match, in the order a backtracking matcher tries them, each as the last
  character consumed and the text left; the head of the list is the match JavaScript
  reports. A star iteration that consumes nothing is rejected, as in JavaScript.
\<close>

fun matches :: "regex \<Rightarrow> char option \<Rightarrow> string \<Rightarrow> (char option \<times> string) list" where
  "matches Eps p s = [(p, s)]"
| "matches (Chr c) p s =
     (case s of [] \<Rightarrow> [] | x # xs \<Rightarrow> if x = c then [(Some x, xs)] else [])"
| "matches (Cls rs) p s =
     (case s of [] \<Rightarrow> [] | x # xs \<Rightarrow> if in_ranges x rs then [(Some x, xs)] else [])"
| "matches Dot p s =
     (case s of [] \<Rightarrow> [] | x # xs \<Rightarrow> if line_terminator x then [] else [(Some x, xs)])"
| "matches Bol p s =
     (case p of None \<Rightarrow> [(p, s)] | Some c \<Rightarrow> if line_terminator c then [(p, s)] else [])"
| "matches Eol p s =
     (case s of [] \<Rightarrow> [(p, s)] | x # xs \<Rightarrow> if line_terminator x then [(p, s)] else [])"
| "matches WordB p s = (if word_before p \<noteq> word_after s then [(p, s)] else [])"
| "matches NonWordB p s = (if word_before p = word_after s then [(p, s)] else [])"
| "matches (Seq a b) p s = concat (map (\<lambda>m. matches b (fst m) (snd m)) (matches a p s))"
| "matches (Alt a b) p s = matches a p s @ matches b p s"
| "matches (Star a) p s =
     concat (map (\<lambda>m. if length (snd m) < length s then matches (Star a) (fst m) (snd m) else [])
                 (matches a p s)) @ [(p, s)]"

text \<open>A literal text, \<^verbatim>\<open>r+\<close>, and the classes the table writes.\<close>

fun lit :: "string \<Rightarrow> regex" where
  "lit [] = Eps"
| "lit [c] = Chr c"
| "lit (c # cs) = Seq (Chr c) (lit cs)"

definition Plus :: "regex \<Rightarrow> regex" where
  "Plus r = Seq r (Star r)"

definition space_class :: regex where
  "space_class = Cls [(CHR 0x09, CHR 0x0D), (CHR '' '', CHR '' ''), (CHR 0xA0, CHR 0xA0)]"

definition any_class :: regex where
  "any_class = Cls [(CHR 0x00, CHR 0xFF)]"

abbreviation backslash :: char where
  "backslash \<equiv> CHR 0x5C"

abbreviation squote :: char where
  "squote \<equiv> CHR 0x27"

abbreviation dquote :: char where
  "dquote \<equiv> CHR 0x22"

section \<open>Modes: the rule table's data\<close>

text \<open>
  A rule of the table is a mode object of the highlighting engine. The fields are the
  ones the table sets: \<^verbatim>\<open>className\<close>, \<^verbatim>\<open>begin\<close>, \<^verbatim>\<open>end\<close>, \<^verbatim>\<open>contains\<close>,
  \<^verbatim>\<open>returnEnd\<close>, \<^verbatim>\<open>relevance\<close> and \<^verbatim>\<open>variants\<close>; a field the source leaves out is
  \<open>None\<close>, \<open>[]\<close> or \<open>False\<close>. \<open>Self\<close> is the string \<^verbatim>\<open>"self"\<close> in a \<^verbatim>\<open>contains\<close> list.
\<close>

datatype mode =
    Mode (className: "string option")
         (begin_re: "regex option")
         (end_re: "regex option")
         (contains_of: "mode list")
         (returnEnd: bool)
         (relevance: "nat option")
         (variants: "mode list")
  | Self

record keyword_table =
  pattern :: regex
  keyword :: string

record language =
  name :: string
  aliases :: "string list"
  case_insensitive :: bool
  lang_keywords :: keyword_table
  contains :: "mode list"

text \<open>
  The global object \<^verbatim>\<open>hljs\<close>: \<^verbatim>\<open>antlrLanguage(hljs)\<close> reads three predefined modes
  from it, and \<^verbatim>\<open>registerLanguage\<close> writes its registry of languages.
\<close>

record hljs =
  BACKSLASH_ESCAPE :: mode
  C_LINE_COMMENT_MODE :: mode
  C_BLOCK_COMMENT_MODE :: mode
  languages :: "string \<rightharpoonup> language"

subsection \<open>The table of \<^verbatim>\<open>antlrLanguage\<close>\<close>

definition lower :: "(char \<times> char)" where
  "lower = (CHR ''a'', CHR ''z'')"

definition upper :: "(char \<times> char)" where
  "upper = (CHR ''A'', CHR ''Z'')"

definition digit :: "(char \<times> char)" where
  "digit = (CHR ''0'', CHR ''9'')"

definition underscore :: "(char \<times> char)" where
  "underscore = (CHR ''_'', CHR ''_'')"

definition one_of :: "string \<Rightarrow> regex" where
  "one_of cs = Cls (map (\<lambda>c. (c, c)) cs)"

text \<open>\<^verbatim>\<open>[a-zA-Z_][a-zA-Z0-9_]*\<close>\<close>

definition ident_re :: regex where
  "ident_re = Seq (Cls [lower, upper, underscore]) (Star (Cls [lower, upper, digit, underscore]))"

definition RULE_NAME :: mode where
  "RULE_NAME = Mode (Some ''title.function'')
     (Some (Seq Bol (Seq (Cls [lower]) (Star (Cls [lower, upper, digit, underscore])))))
     None [] False (Some 10) []"

definition TOKEN_NAME :: mode where
  "TOKEN_NAME = Mode (Some ''title.class'')
     (Some (Seq (Cls [upper]) (Star (Cls [upper, digit, underscore]))))
     None [] False (Some 8) []"

definition STRING :: "hljs \<Rightarrow> mode" where
  "STRING h = Mode (Some ''string'') None None [] False None
     [ Mode None (Some (Chr squote)) (Some (Chr squote)) [BACKSLASH_ESCAPE h] False None [],
       Mode None (Some (Chr dquote)) (Some (Chr dquote)) [BACKSLASH_ESCAPE h] False None [] ]"

definition ACTION_CODE :: "hljs \<Rightarrow> mode" where
  "ACTION_CODE h = Mode (Some ''section'') (Some (Chr CHR ''{'')) (Some (Chr CHR ''}''))
     [ Mode None (Some (Chr CHR ''{'')) (Some (Chr CHR ''}'')) [Self] False None [],
       C_LINE_COMMENT_MODE h,
       C_BLOCK_COMMENT_MODE h,
       STRING h ]
     False None []"

definition OPTION :: "hljs \<Rightarrow> mode" where
  "OPTION h = Mode (Some ''meta'')
     (Some (Seq (lit ''options'') (Seq (Star space_class) (Chr CHR ''{''))))
     (Some (Chr CHR ''}''))
     [ Mode (Some ''meta-keyword'')
         (Some (Seq WordB (Seq ident_re (Seq (Star space_class) (Chr CHR ''='')))))
         None [] False None [],
       STRING h,
       C_LINE_COMMENT_MODE h,
       C_BLOCK_COMMENT_MODE h ]
     False None []"

definition HEADER :: mode where
  "HEADER = Mode (Some ''meta'') (Some (Seq (Chr CHR ''@'') ident_re)) (Some (Chr CHR ''{''))
     [ Mode (Some ''meta-keyword'') (Some (Seq (Chr CHR ''@'') ident_re)) None [] False None [] ]
     True None []"

definition GRAMMAR_TYPE :: mode where
  "GRAMMAR_TYPE = Mode (Some ''keyword'')
     (Some (Seq WordB
        (Seq (Alt (lit ''grammar'')
             (Alt (Seq (lit ''lexer'') (Seq (Plus space_class) (lit ''grammar'')))
                  (Seq (lit ''parser'') (Seq (Plus space_class) (lit ''grammar'')))))
         WordB)))
     None [] False None []"

definition join :: "string list \<Rightarrow> string" where
  "join ws = (case ws of [] \<Rightarrow> [] | w # r \<Rightarrow> foldl (\<lambda>a b. a @ '' '' @ b) w r)"

definition KEYWORDS :: keyword_table where
  "KEYWORDS = \<lparr> pattern = ident_re,
     keyword = join [''grammar'', ''lexer'', ''parser'', ''fragment'', ''import'', ''returns'',
       ''locals'', ''throws'', ''catch'', ''finally'', ''mode'', ''pushMode'', ''popMode'',
       ''skip'', ''more'', ''type'', ''channel''] \<rparr>"

definition OPERATORS :: mode where
  "OPERATORS = Mode (Some ''operator'') (Some (one_of ''|*+?~'')) None [] False None []"

definition SPECIAL_CHARS :: mode where
  "SPECIAL_CHARS = Mode (Some ''punctuation'') (Some (one_of '';:()[]'')) None [] False None []"

definition RANGE :: mode where
  "RANGE = Mode (Some ''string'') (Some (Chr CHR ''['')) (Some (Chr CHR '']''))
     [ Mode None (Some (Seq (Chr backslash) Dot)) None [] False None [],
       Mode (Some ''operator'') (Some (Chr CHR ''-'')) None [] False None [] ]
     False None []"

definition DOT :: mode where
  "DOT = Mode (Some ''built_in'') (Some (Chr CHR ''.'')) None [] False None []"

definition antlrLanguage :: "hljs \<Rightarrow> language" where
  "antlrLanguage h = \<lparr>
     name = ''ANTLR'',
     aliases = [''antlr4'', ''g4''],
     case_insensitive = False,
     lang_keywords = KEYWORDS,
     contains =
       [ C_LINE_COMMENT_MODE h,
         C_BLOCK_COMMENT_MODE h,
         GRAMMAR_TYPE,
         HEADER,
         OPTION h,
         ACTION_CODE h,
         RULE_NAME,
         TOKEN_NAME,
         STRING h,
         RANGE,
         OPERATORS,
         SPECIAL_CHARS,
         DOT,
         Mode (Some ''punctuation'') (Some (Chr CHR '':'')) None [] False None [],
         Mode (Some ''operator'') (Some (Chr CHR ''|'')) None [] False None [],
         Mode (Some ''punctuation'') (Some (Chr CHR '';'')) None [] False None [] ] \<rparr>"

section \<open>The highlighting engine\<close>

text \<open>
  Modelled from the spec: the highlighting engine that interprets the table
  (\<^verbatim>\<open>highlight.js\<close>, the global \<^verbatim>\<open>hljs\<close>) is a library outside the repository, so
  its code is not among the sources. The spec describes it as an engine that applies the
  rules of the grammar to the text of a code block, takes a matcher, a list of nested
  rules, a display class and a relevance from each rule, lets the earlier rule win at a
  position, leaves unmatched text unclassified and returns a sequence of classified
  spans. The model follows the library's loop for the fields the table uses: the
  compilation of a \<^verbatim>\<open>contains\<close> list (\<^verbatim>\<open>"self"\<close>, \<^verbatim>\<open>variants\<close>), the joined
  matcher of a mode, the begin and end handlers with \<^verbatim>\<open>returnEnd\<close>, keyword
  processing of the text between matches, and the relevance counter.
\<close>

datatype event = OpenNode string | AddText string | CloseNode | Score nat

datatype error = ZeroWidthBegin | NoProgress

definition emit :: "event list \<Rightarrow> error + event list \<Rightarrow> error + event list" where
  "emit es r = (case r of Inl e \<Rightarrow> Inl e | Inr t \<Rightarrow> Inr (es @ t))"

definition and_then :: "error + event list \<Rightarrow> error + event list \<Rightarrow> error + event list" where
  "and_then a r = (case a of Inl e \<Rightarrow> Inl e | Inr es \<Rightarrow> emit es r)"

subsection \<open>Compiling a mode\<close>

text \<open>
  A mode with variants stands for one mode per variant: the variant's fields over the
  parent's. \<^verbatim>\<open>"self"\<close> in the \<^verbatim>\<open>contains\<close> list of a mode is that mode. A mode with
  no \<^verbatim>\<open>begin\<close> or no \<^verbatim>\<open>end\<close> gets \<^verbatim>\<open>/\B|\b/\<close>, which matches the empty text
  everywhere, and a mode with no relevance gets 1.
\<close>

fun inherit :: "mode \<Rightarrow> mode \<Rightarrow> mode" where
  "inherit (Mode c b e cs r rel vs) (Mode c' b' e' cs' r' rel' vs') =
     Mode (case c' of None \<Rightarrow> c | Some x \<Rightarrow> Some x)
          (case b' of None \<Rightarrow> b | Some x \<Rightarrow> Some x)
          (case e' of None \<Rightarrow> e | Some x \<Rightarrow> Some x)
          (if cs' = [] then cs else cs')
          (r \<or> r')
          (case rel' of None \<Rightarrow> rel | Some x \<Rightarrow> Some x)
          vs'"
| "inherit (Mode c b e cs r rel vs) Self = Self"
| "inherit Self v = v"

fun expand :: "mode \<Rightarrow> mode list" where
  "expand (Mode c b e cs r rel vs) =
     (if vs = [] then [Mode c b e cs r rel vs] else map (inherit (Mode c b e cs r rel [])) vs)"
| "expand Self = []"

fun children :: "mode \<Rightarrow> mode list" where
  "children (Mode c b e cs r rel vs) =
     concat (map (\<lambda>k. expand (case k of Self \<Rightarrow> Mode c b e cs r rel vs | _ \<Rightarrow> k)) cs)"
| "children Self = []"

definition default_re :: regex where
  "default_re = Alt NonWordB WordB"

fun beginRe :: "mode \<Rightarrow> regex" where
  "beginRe (Mode c b e cs r rel vs) = (case b of None \<Rightarrow> default_re | Some x \<Rightarrow> x)"
| "beginRe Self = default_re"

fun endRe :: "mode \<Rightarrow> regex" where
  "endRe (Mode c b e cs r rel vs) = (case e of None \<Rightarrow> default_re | Some x \<Rightarrow> x)"
| "endRe Self = default_re"

fun scope :: "mode \<Rightarrow> string option" where
  "scope (Mode c b e cs r rel vs) = c"
| "scope Self = None"

fun returns_end :: "mode \<Rightarrow> bool" where
  "returns_end (Mode c b e cs r rel vs) = r"
| "returns_end Self = False"

fun mode_relevance :: "mode \<Rightarrow> nat" where
  "mode_relevance (Mode c b e cs r rel vs) = (case rel of None \<Rightarrow> 1 | Some n \<Rightarrow> n)"
| "mode_relevance Self = 1"

subsection \<open>The matcher of a mode\<close>

text \<open>
  The engine joins the \<^verbatim>\<open>begin\<close> patterns of the children of the current mode, in
  the order of the \<^verbatim>\<open>contains\<close> list, and then the mode's own \<^verbatim>\<open>end\<close>, into one
  alternation and runs it from the current index. So the match found is at the leftmost
  position where any of the patterns matches, and among the patterns that match there
  it is the first one of the list. The language itself has no \<^verbatim>\<open>end\<close>.
\<close>

datatype match_type = Begin mode | End

definition matcher :: "language \<Rightarrow> mode list \<Rightarrow> (regex \<times> match_type) list" where
  "matcher L stack =
     (case stack of
        [] \<Rightarrow> map (\<lambda>k. (beginRe k, Begin k)) (concat (map expand (contains L)))
      | cur # _ \<Rightarrow> map (\<lambda>k. (beginRe k, Begin k)) (children cur) @ [(endRe cur, End)])"

fun first_rule ::
  "(regex \<times> match_type) list \<Rightarrow> char option \<Rightarrow> string \<Rightarrow> (match_type \<times> char option \<times> string) option"
where
  "first_rule [] p s = None"
| "first_rule (r # rs) p s =
     (case matches (fst r) p s of [] \<Rightarrow> first_rule rs p s | m # _ \<Rightarrow> Some (snd r, m))"

text \<open>
  \<open>exec rs p s\<close> is the next match in \<open>s\<close>: the text before it, the rule, the lexeme,
  and the position after the lexeme.
\<close>

fun exec ::
  "(regex \<times> match_type) list \<Rightarrow> char option \<Rightarrow> string \<Rightarrow>
   (string \<times> match_type \<times> string \<times> char option \<times> string) option"
where
  "exec rs p [] =
     (case first_rule rs p [] of
        Some (t, p', s') \<Rightarrow> Some ([], t, [], p', s')
      | None \<Rightarrow> None)"
| "exec rs p (c # cs) =
     (case first_rule rs p (c # cs) of
        Some (t, p', s') \<Rightarrow> Some ([], t, take (Suc (length cs) - length s') (c # cs), p', s')
      | None \<Rightarrow>
          (case exec rs (Some c) cs of
             None \<Rightarrow> None
           | Some (b, x) \<Rightarrow> Some (c # b, x)))"

definition prev_after :: "char option \<Rightarrow> string \<Rightarrow> char option" where
  "prev_after p b = (if b = [] then p else Some (last b))"

text \<open>Every match leaves a suffix of the text, so the text splits at the match.\<close>

lemma matches_suffix:
  "m \<in> set (matches r p s) \<Longrightarrow> \<exists>l. s = l @ snd m"
proof (induction r p s arbitrary: m rule: matches.induct)
  case (1 p s) then show ?case by simp
next
  case (2 c p s) then show ?case by (cases s) (auto split: if_splits)
next
  case (3 rs p s) then show ?case by (cases s) (auto split: if_splits)
next
  case (4 p s) then show ?case by (cases s) (auto split: if_splits)
next
  case (5 p s) then show ?case by (cases p) (auto split: if_splits)
next
  case (6 p s) then show ?case by (cases s) (auto split: if_splits)
next
  case (7 p s) then show ?case by (auto split: if_splits)
next
  case (8 p s) then show ?case by (auto split: if_splits)
next
  case (9 a b p s)
  from "9.prems" obtain m1 where m1: "m1 \<in> set (matches a p s)" and m: "m \<in> set (matches b (fst m1) (snd m1))"
    by auto
  from "9.IH"(1)[OF m1] obtain l1 where "s = l1 @ snd m1" by blast
  moreover from "9.IH"(2)[OF m1 m] obtain l2 where "snd m1 = l2 @ snd m" by blast
  ultimately have "s = (l1 @ l2) @ snd m" by simp
  then show ?case by blast
next
  case (10 a b p s) then show ?case by (cases m) fastforce
next
  case (11 a p s)
  show ?case
  proof (cases "m = (p, s)")
    case True
    then show ?thesis by simp
  next
    case False
    have "matches (Star a) p s = concat (map (\<lambda>m. if length (snd m) < length s then matches (Star a) (fst m) (snd m) else [])
                 (matches a p s)) @ [(p, s)]" by (rule matches.simps)
    with "11.prems" False obtain m1 where m1: "m1 \<in> set (matches a p s)"
      and lt: "length (snd m1) < length s"
      and m: "m \<in> set (matches (Star a) (fst m1) (snd m1))"
      by (auto simp del: matches.simps split: if_splits)
    from "11.IH"(1)[OF m1] obtain l1 where "s = l1 @ snd m1" by blast
    moreover from "11.IH"(2)[OF m1 lt m] obtain l2 where "snd m1 = l2 @ snd m" by blast
    ultimately have "s = (l1 @ l2) @ snd m" by simp
    then show ?thesis by blast
  qed
qed

lemma first_rule_suffix:
  "first_rule rs p s = Some (t, p', s') \<Longrightarrow> \<exists>l. s = l @ s'"
proof (induction rs)
  case Nil
  then show ?case by simp
next
  case (Cons r rs)
  show ?case
  proof (cases "matches (fst r) p s")
    case Nil
    with Cons show ?thesis by simp
  next
    case (Cons m ms)
    with Cons.prems have "m = (p', s')" by simp
    moreover have "m \<in> set (matches (fst r) p s)" using Cons by simp
    ultimately show ?thesis using matches_suffix by fastforce
  qed
qed

lemma exec_split:
  "exec rs p s = Some (b, t, l, p', s') \<Longrightarrow> s = b @ l @ s'"
proof (induction s arbitrary: p b)
  case Nil
  then show ?case
    by (auto split: option.splits dest!: first_rule_suffix)
next
  case (Cons c cs)
  show ?case
  proof (cases "first_rule rs p (c # cs)")
    case None
    with Cons.prems obtain b' where b: "b = c # b'" and e: "exec rs (Some c) cs = Some (b', t, l, p', s')"
      by (auto split: option.splits)
    from Cons.IH[OF e] b show ?thesis by simp
  next
    case (Some x)
    obtain t0 p0 s0 where x: "x = (t0, p0, s0)" by (cases x) auto
    from Some x Cons.prems have eq: "b = []" "t = t0" "p' = p0" "s' = s0" "l = take (Suc (length cs) - length s0) (c # cs)"
      by auto
    from first_rule_suffix[OF Some[unfolded x]] obtain l0 where l0: "c # cs = l0 @ s0" by blast
    then have "Suc (length cs) = length l0 + length s0" by (metis length_Cons length_append)
    then have "l = l0" using eq(5) l0 by simp
    with eq l0 show ?thesis by simp
  qed
qed

subsection \<open>Keywords and the main loop\<close>

text \<open>
  The text between two matches is collected in a buffer. When a mode begins or ends the
  buffer is flushed: in the language's own mode the keyword pattern is run over it and
  every word of the keyword list becomes a \<^verbatim>\<open>keyword\<close> node; in any other mode of
  this table (none declares keywords) it is added as plain text. The keyword list is the
  \<^verbatim>\<open>keyword\<close> string split at the spaces. The score that keyword hits add to the
  relevance counter is not modelled.

  \<open>run\<close> is the loop of the engine: \<open>stack\<close> holds the open modes (innermost first),
  \<open>p\<close> and \<open>s\<close> are the position in the input, \<open>buf\<close> is the buffer. The result is the
  sequence of calls the loop makes on its output tree (open a node, add text, close a
  node), with the additions to the relevance counter as \<open>Score\<close> entries. A mode begins
  with its lexeme as the buffer; it ends when its end pattern is the match found, and
  then adds its relevance. At the end of the input the buffer is flushed and the nodes
  still open are closed.

  Two cases end in an error value. \<open>ZeroWidthBegin\<close>: a child's begin pattern matched
  the empty text; the engine would open the mode without advancing, which the model does
  not follow (no begin pattern of this table matches the empty text). \<open>NoProgress\<close>: the
  engine would not advance (its own guard throws after 100000 iterations).
\<close>

fun split_on :: "char \<Rightarrow> string \<Rightarrow> string list" where
  "split_on d [] = [[]]"
| "split_on d (c # cs) =
     (if c = d then [] # split_on d cs
      else (case split_on d cs of [] \<Rightarrow> [[c]] | w # ws \<Rightarrow> (c # w) # ws))"

definition keyword_list :: "language \<Rightarrow> string list" where
  "keyword_list L = split_on CHR '' '' (keyword (lang_keywords L))"

definition addText :: "string \<Rightarrow> event list" where
  "addText t = (if t = [] then [] else [AddText t])"

function processKeywords :: "language \<Rightarrow> char option \<Rightarrow> string \<Rightarrow> string \<Rightarrow> error + event list" where
  "processKeywords L p buf acc =
     (case exec [(pattern (lang_keywords L), End)] p buf of
        None \<Rightarrow> Inr (addText (acc @ buf))
      | Some (pre, t, word, p', rest) \<Rightarrow>
          if word = [] then Inl NoProgress
          else if word \<in> set (keyword_list L)
          then emit (addText (acc @ pre) @ [OpenNode ''keyword'', AddText word, CloseNode])
                    (processKeywords L p' rest [])
          else processKeywords L p' rest (acc @ pre @ word))"
  by pat_completeness auto
termination
  by (relation "measure (\<lambda>(L, p, buf, acc). length buf)") (auto dest!: exec_split)

declare processKeywords.simps [simp del]

definition processBuffer :: "language \<Rightarrow> mode list \<Rightarrow> string \<Rightarrow> error + event list" where
  "processBuffer L stack buf =
     (case stack of [] \<Rightarrow> processKeywords L None buf [] | cur # _ \<Rightarrow> Inr (addText buf))"

definition openNode :: "mode \<Rightarrow> event list" where
  "openNode m = (case scope m of None \<Rightarrow> [] | Some c \<Rightarrow> [OpenNode c])"

definition closeNode :: "mode \<Rightarrow> event list" where
  "closeNode m = (case scope m of None \<Rightarrow> [] | Some c \<Rightarrow> [CloseNode])"

definition endOfMode :: "mode \<Rightarrow> string \<Rightarrow> bool" where
  "endOfMode m s = (matches (endRe m) None s \<noteq> [])"

function run :: "language \<Rightarrow> mode list \<Rightarrow> char option \<Rightarrow> string \<Rightarrow> string \<Rightarrow> error + event list" where
  "run L stack p s buf =
     (case exec (matcher L stack) p s of
        None \<Rightarrow> and_then (processBuffer L stack (buf @ s)) (Inr (concat (map closeNode stack)))
      | Some (pre, t, lexeme, p', s') \<Rightarrow>
          (case t of
             Begin m \<Rightarrow>
               if lexeme = [] then Inl ZeroWidthBegin
               else and_then (processBuffer L stack (buf @ pre))
                      (emit (openNode m) (run L (m # stack) p' s' lexeme))
           | End \<Rightarrow>
               (case stack of
                  [] \<Rightarrow> Inl NoProgress
                | cur # parent \<Rightarrow>
                    if endOfMode cur (lexeme @ s') then
                      (if returns_end cur
                       then and_then (processBuffer L stack (buf @ pre))
                              (emit (closeNode cur @ [Score (mode_relevance cur)])
                                 (run L parent (prev_after p pre) (lexeme @ s') []))
                       else and_then (processBuffer L stack (buf @ pre @ lexeme))
                              (emit (closeNode cur @ [Score (mode_relevance cur)])
                                 (run L parent p' s' [])))
                    else if lexeme = [] then Inl NoProgress
                    else run L stack p' s' (buf @ pre @ lexeme))))"
  by pat_completeness auto
termination
  by (relation "measures [\<lambda>(L, stack, p, s, buf). length s, \<lambda>(L, stack, p, s, buf). length stack]")
     (auto dest!: exec_split)

declare run.simps [simp del]

definition highlight :: "language \<Rightarrow> string \<Rightarrow> error + event list" where
  "highlight L code = run L [] None code []"

text \<open>
  Modelled from the spec: the three predefined modes that \<^verbatim>\<open>antlrLanguage\<close> reads
  from the library are not among the sources either. \<^verbatim>\<open>BACKSLASH_ESCAPE\<close> is
  \<^verbatim>\<open>{begin: '\\[\s\S]', relevance: 0}\<close>; the comment modes are \<^verbatim>\<open>COMMENT('//', '$')\<close>
  and \<^verbatim>\<open>COMMENT('/\*', '\*/')\<close>, with scope \<^verbatim>\<open>comment\<close>. The library's comment
  modes also hold two children that only divide the text inside a comment (doc tags and
  runs of English words); they are left out here.
\<close>

definition hljs_lib :: hljs where
  "hljs_lib = \<lparr>
     BACKSLASH_ESCAPE = Mode None (Some (Seq (Chr backslash) any_class)) None [] False (Some 0) [],
     C_LINE_COMMENT_MODE = Mode (Some ''comment'') (Some (lit ''//'')) (Some Eol) [] False None [],
     C_BLOCK_COMMENT_MODE = Mode (Some ''comment'') (Some (lit ''/*'')) (Some (lit ''*/'')) [] False None [],
     languages = Map.empty \<rparr>"

section \<open>The page script\<close>

text \<open>
  The script that loads the table into the engine. A page is the list of its
  \<^verbatim>\<open>pre code\<close> elements, each with its attributes and its content; the global
  \<^verbatim>\<open>hljs\<close> is \<open>None\<close> when it is undefined. \<^verbatim>\<open>hljs.highlightElement\<close> is a
  parameter \<open>hl\<close>: any function of the engine and the element.
\<close>

record 'a element =
  attributes :: "string \<rightharpoonup> string"
  inner :: 'a

record 'a window =
  hljs_global :: "hljs option"
  blocks :: "'a element list"

datatype js_error = ReferenceError

definition setAttribute :: "string \<Rightarrow> string \<Rightarrow> 'a element \<Rightarrow> 'a element" where
  "setAttribute k v el = el\<lparr>attributes := (attributes el)(k \<mapsto> v)\<rparr>"

text \<open>The selector \<^verbatim>\<open>:not([data-highlighted])\<close>.\<close>

definition unprocessed :: "'a element \<Rightarrow> bool" where
  "unprocessed el = (attributes el ''data-highlighted'' = None)"

definition registerLanguage :: "string \<Rightarrow> (hljs \<Rightarrow> language) \<Rightarrow> hljs \<Rightarrow> hljs" where
  "registerLanguage n def h = h\<lparr>languages := (languages h)(n \<mapsto> def h)\<rparr>"

text \<open>
  \<^verbatim>\<open>highlightUnprocessedBlocks\<close> reads \<^verbatim>\<open>hljs\<close> only inside the callback: with no
  element selected nothing is thrown even when \<^verbatim>\<open>hljs\<close> is undefined; otherwise the
  first call throws a ReferenceError before any element is changed.
\<close>

definition highlightUnprocessedBlocks ::
  "(hljs \<Rightarrow> 'a element \<Rightarrow> 'a element) \<Rightarrow> 'a window \<Rightarrow> js_error + 'a window"
where
  "highlightUnprocessedBlocks hl w =
     (case hljs_global w of
        None \<Rightarrow> if list_ex unprocessed (blocks w) then Inl ReferenceError else Inr w
      | Some h \<Rightarrow>
          Inr (w\<lparr>blocks :=
                 map (\<lambda>el. if unprocessed el
                           then setAttribute ''data-highlighted'' ''true'' (hl h el)
                           else el)
                     (blocks w)\<rparr>))"

definition initializeHighlighting ::
  "(hljs \<Rightarrow> 'a element \<Rightarrow> 'a element) \<Rightarrow> 'a window \<Rightarrow> js_error + 'a window"
where
  "initializeHighlighting hl w =
     (case hljs_global w of
        None \<Rightarrow> Inr w
      | Some h \<Rightarrow>
          highlightUnprocessedBlocks hl
            (w\<lparr>hljs_global := Some (registerLanguage ''antlr'' antlrLanguage h)\<rparr>))"

section \<open>Reading the output\<close>

text \<open>
  \<open>tokens\<close> drops the additions to the relevance counter and keeps the calls on the output
  tree. \<open>spans\<close> lists the nodes of the output in the order they are opened, each with
  its class and the text inside it (\<open>span_text\<close>: the text up to the node's closing
  call, the text of nested nodes included). \<open>classify\<close> is the list of classified spans
  of a text.
\<close>

fun is_score :: "event \<Rightarrow> bool" where
  "is_score (Score n) = True"
| "is_score e = False"

definition tokens :: "error + event list \<Rightarrow> error + event list" where
  "tokens r = (case r of Inl e \<Rightarrow> Inl e | Inr es \<Rightarrow> Inr (filter (\<lambda>e. \<not> is_score e) es))"

fun span_text :: "nat \<Rightarrow> event list \<Rightarrow> string" where
  "span_text d [] = []"
| "span_text d (AddText t # es) = t @ span_text d es"
| "span_text d (OpenNode c # es) = span_text (Suc d) es"
| "span_text d (CloseNode # es) = (case d of 0 \<Rightarrow> [] | Suc d' \<Rightarrow> span_text d' es)"
| "span_text d (Score n # es) = span_text d es"

fun spans :: "event list \<Rightarrow> (string \<times> string) list" where
  "spans [] = []"
| "spans (OpenNode c # es) = (c, span_text 0 es) # spans es"
| "spans (e # es) = spans es"

definition classify :: "language \<Rightarrow> string \<Rightarrow> error + (string \<times> string) list" where
  "classify L code = (case highlight L code of Inl e \<Rightarrow> Inl e | Inr es \<Rightarrow> Inr (spans es))"

text \<open>
  A position is at the start of a line when nothing or a line terminator comes before
  it. \<open>starts_with R s\<close>: the text \<open>s\<close> begins with a character of the class \<open>R\<close>.
\<close>

definition line_start :: "char option \<Rightarrow> bool" where
  "line_start p = (case p of None \<Rightarrow> True | Some c \<Rightarrow> line_terminator c)"

definition starts_with :: "(char \<times> char) list \<Rightarrow> string \<Rightarrow> bool" where
  "starts_with R s = (case s of [] \<Rightarrow> False | x # _ \<Rightarrow> in_ranges x R)"

text \<open>
  \<open>rule_nodes_at_line_start T es\<close>: going through the output calls \<open>es\<close> after the
  text \<open>T\<close>, every node of class \<^verbatim>\<open>title.function\<close> is opened where the text so far is
  empty or ends with a line terminator.
\<close>

fun rule_nodes_at_line_start :: "string \<Rightarrow> event list \<Rightarrow> bool" where
  "rule_nodes_at_line_start T [] = True"
| "rule_nodes_at_line_start T (AddText t # es) = rule_nodes_at_line_start (T @ t) es"
| "rule_nodes_at_line_start T (OpenNode c # es) =
     ((c = ''title.function'' \<longrightarrow> line_start (prev_after None T)) \<and> rule_nodes_at_line_start T es)"
| "rule_nodes_at_line_start T (e # es) = rule_nodes_at_line_start T es"

subsection \<open>Relevance values\<close>

text \<open>
  Two languages differ only in relevance values when they are equal once every
  \<^verbatim>\<open>relevance\<close> field is erased.
\<close>

fun strip_relevance :: "mode \<Rightarrow> mode" where
  "strip_relevance (Mode c b e cs r rel vs) =
     Mode c b e (map strip_relevance cs) r None (map strip_relevance vs)"
| "strip_relevance Self = Self"

definition strip_language :: "language \<Rightarrow> language" where
  "strip_language L = L\<lparr>contains := map strip_relevance (contains L)\<rparr>"

definition same_but_relevance :: "language \<Rightarrow> language \<Rightarrow> bool" where
  "same_but_relevance L L' = (strip_language L = strip_language L')"

fun strip_tag :: "match_type \<Rightarrow> match_type" where
  "strip_tag (Begin m) = Begin (strip_relevance m)"
| "strip_tag End = End"

subsection \<open>String literals and character-class ranges, piece by piece\<close>

text \<open>
  The inside of a string literal or of a range is a list of pieces: a plain character or
  a backslash followed by a character. In a string opened by \<open>q\<close> a plain character is
  any character but \<open>q\<close> and the backslash; in a range it is any character but
  \<^verbatim>\<open>]\<close> and the backslash, and the character after a backslash is not a line
  terminator (the pattern is \<^verbatim>\<open>\\.\<close>). \<open>string_events\<close> and \<open>range_events\<close> say what
  the loop emits for the pieces, starting with the buffer \<open>buf\<close>.
\<close>

datatype piece = Plain char | Escaped char

fun render :: "piece \<Rightarrow> string" where
  "render (Plain c) = [c]"
| "render (Escaped c) = [backslash, c]"

fun string_piece :: "char \<Rightarrow> piece \<Rightarrow> bool" where
  "string_piece q (Plain c) = (c \<noteq> q \<and> c \<noteq> backslash)"
| "string_piece q (Escaped c) = True"

fun string_events :: "char \<Rightarrow> string \<Rightarrow> piece list \<Rightarrow> event list" where
  "string_events q buf [] = [AddText (buf @ [q]), CloseNode, Score 1]"
| "string_events q buf (Plain c # ps) = string_events q (buf @ [c]) ps"
| "string_events q buf (Escaped c # ps) =
     addText buf @ [AddText [backslash, c], Score 0] @ string_events q [] ps"

fun range_piece :: "piece \<Rightarrow> bool" where
  "range_piece (Plain c) = (c \<noteq> CHR '']'' \<and> c \<noteq> backslash)"
| "range_piece (Escaped c) = (\<not> line_terminator c)"

fun range_events :: "string \<Rightarrow> piece list \<Rightarrow> event list" where
  "range_events buf [] = [AddText (buf @ '']''), CloseNode, Score 1]"
| "range_events buf (Plain c # ps) =
     (if c = CHR ''-''
      then addText buf @ [OpenNode ''operator'', AddText ''-'', CloseNode, Score 1] @ range_events [] ps
      else range_events (buf @ [c]) ps)"
| "range_events buf (Escaped c # ps) =
     addText buf @ [AddText [backslash, c], Score 1] @ range_events [] ps"

text \<open>The compiled modes involved: the two variants of \<^verbatim>\<open>STRING\<close> and the children of \<^verbatim>\<open>RANGE\<close>.\<close>

definition quoted :: "char \<Rightarrow> mode" where
  "quoted q = Mode (Some ''string'') (Some (Chr q)) (Some (Chr q)) [BACKSLASH_ESCAPE hljs_lib] False None []"

definition range_escape :: mode where
  "range_escape = Mode None (Some (Seq (Chr backslash) Dot)) None [] False None []"

definition range_hyphen :: mode where
  "range_hyphen = Mode (Some ''operator'') (Some (Chr CHR ''-'')) None [] False None []"

subsection \<open>Nested blocks as trees\<close>








definition inner_block :: mode where
  "inner_block = Mode None (Some (Chr CHR ''{'')) (Some (Chr CHR ''}'')) [Self] False None []"

subsection \<open>The modes of the table\<close>

text \<open>
  All the compiled modes that the loop can have open for this table: the rules of the
  language, the two variants of \<^verbatim>\<open>STRING\<close>, and the children of the rules.
  \<open>nonempty r\<close> is a syntactic check that every match of \<open>r\<close> consumes a character.
  \<open>ends_ok m\<close>: where the end pattern of \<open>m\<close> matches in the input, it also matches at
  the head of the text cut at that position, which is how the end handler checks it again.
  \<open>texts\<close> is the text that a sequence of output calls adds, in order.
\<close>

fun nonempty :: "regex \<Rightarrow> bool" where
  "nonempty (Chr c) = True"
| "nonempty (Cls rs) = True"
| "nonempty Dot = True"
| "nonempty (Seq a b) = (nonempty a \<or> nonempty b)"
| "nonempty (Alt a b) = (nonempty a \<and> nonempty b)"
| "nonempty r = False"

definition option_key :: mode where
  "option_key = Mode (Some ''meta-keyword'')
         (Some (Seq WordB (Seq ident_re (Seq (Star space_class) (Chr CHR ''='')))))
         None [] False None []"

definition header_key :: mode where
  "header_key = Mode (Some ''meta-keyword'') (Some (Seq (Chr CHR ''@'') ident_re)) None [] False None []"

definition antlr_modes :: "mode list" where
  "antlr_modes =
     [C_LINE_COMMENT_MODE hljs_lib, C_BLOCK_COMMENT_MODE hljs_lib, GRAMMAR_TYPE, HEADER,
      OPTION hljs_lib, ACTION_CODE hljs_lib, RULE_NAME, TOKEN_NAME, quoted squote, quoted dquote,
      RANGE, OPERATORS, SPECIAL_CHARS, DOT,
      Mode (Some ''punctuation'') (Some (Chr CHR '':'')) None [] False None [],
      Mode (Some ''operator'') (Some (Chr CHR ''|'')) None [] False None [],
      Mode (Some ''punctuation'') (Some (Chr CHR '';'')) None [] False None [],
      BACKSLASH_ESCAPE hljs_lib, inner_block, option_key, header_key, range_escape, range_hyphen]"

definition ends_ok :: "mode \<Rightarrow> bool" where
  "ends_ok m = (\<forall>p s. matches (endRe m) p s \<noteq> [] \<longrightarrow> endOfMode m s)"

fun texts :: "event list \<Rightarrow> string" where
  "texts [] = []"
| "texts (AddText t # es) = t @ texts es"
| "texts (e # es) = texts es"

subsection \<open>Example inputs\<close>

text \<open>
  The scenario of the specification; the pieces of \<^verbatim>\<open>'it\'s "ok'\<close>, of
  \<^verbatim>\<open>[a-z\-0]\<close>; a block nested three deep; the table with other relevance values for
  \<^verbatim>\<open>RULE_NAME\<close> and \<^verbatim>\<open>TOKEN_NAME\<close>; a page with one block to process and one already
  processed, and a page without the engine.
\<close>

definition scenario :: string where
  "scenario = ''grammar Foo; fragment X: 'a'..'z';''"

definition its_ok :: "piece list" where
  "its_ok = [Plain CHR ''i'', Plain CHR ''t'', Escaped squote, Plain CHR ''s'', Plain CHR '' '',
             Plain dquote, Plain CHR ''o'', Plain CHR ''k'']"

definition a_to_z :: "piece list" where
  "a_to_z = [Plain CHR ''a'', Plain CHR ''-'', Plain CHR ''z'', Escaped CHR ''-'', Plain CHR ''0'']"


definition antlr_flat :: language where
  "antlr_flat = (antlrLanguage hljs_lib)
     \<lparr>contains := (contains (antlrLanguage hljs_lib))
        [6 := Mode (Some ''title.function'')
                (Some (Seq Bol (Seq (Cls [lower]) (Star (Cls [lower, upper, digit, underscore])))))
                None [] False (Some 0) [],
         7 := Mode (Some ''title.class'')
                (Some (Seq (Cls [upper]) (Star (Cls [upper, digit, underscore]))))
                None [] False None []]\<rparr>"

definition demo_page :: "string window" where
  "demo_page = \<lparr> hljs_global = Some hljs_lib,
      blocks = [ \<lparr> attributes = Map.empty, inner = ''a : B ;'' \<rparr>,
                 \<lparr> attributes = [''data-highlighted'' \<mapsto> ''yes''], inner = ''done'' \<rparr> ] \<rparr>"

definition demo_hl :: "hljs \<Rightarrow> string element \<Rightarrow> string element" where
  "demo_hl h el = el\<lparr>inner := ''<span>'' @ inner el @ ''</span>''\<rparr>"

definition demo_page_done :: "string window" where
  "demo_page_done = \<lparr> hljs_global = Some hljs_lib,
      blocks = [ \<lparr> attributes = [''data-highlighted'' \<mapsto> ''true''], inner = ''<span>a : B ;</span>'' \<rparr>,
                 \<lparr> attributes = [''data-highlighted'' \<mapsto> ''yes''], inner = ''done'' \<rparr> ] \<rparr>"

definition demo_page_no_hljs :: "string window" where
  "demo_page_no_hljs = \<lparr> hljs_global = None,
      blocks = [ \<lparr> attributes = Map.empty, inner = ''a : B ;'' \<rparr> ] \<rparr>"

section \<open>The loop, step by step\<close>

text \<open>
  The equation of the star is unfolded by hand only. The lemmas below give one step of
  \<open>exec\<close> and of \<open>run\<close> in each case of the loop.
\<close>

declare matches.simps(11) [simp del]

lemmas table_defs = antlrLanguage_def hljs_lib_def RULE_NAME_def TOKEN_NAME_def STRING_def
  ACTION_CODE_def OPTION_def HEADER_def GRAMMAR_TYPE_def OPERATORS_def SPECIAL_CHARS_def
  RANGE_def DOT_def

lemmas class_defs = in_ranges_def lower_def upper_def digit_def underscore_def one_of_def
  ident_re_def Plus_def space_class_def any_class_def

lemma first_rule_sound:
  "first_rule rs p s = Some (t, m) \<Longrightarrow>
     \<exists>i < length rs. snd (rs ! i) = t \<and> matches (fst (rs ! i)) p s \<noteq> [] \<and> hd (matches (fst (rs ! i)) p s) = m
        \<and> (\<forall>j < i. matches (fst (rs ! j)) p s = [])"
proof (induction rs)
  case Nil
  then show ?case by simp
next
  case (Cons r rs)
  show ?case
  proof (cases "matches (fst r) p s")
    case Nil
    with Cons.prems have "first_rule rs p s = Some (t, m)" by simp
    from Cons.IH[OF this] obtain i where i: "i < length rs" "snd (rs ! i) = t"
      "matches (fst (rs ! i)) p s \<noteq> []" "hd (matches (fst (rs ! i)) p s) = m"
      "\<forall>j < i. matches (fst (rs ! j)) p s = []" by blast
    have "\<forall>j < Suc i. matches (fst ((r # rs) ! j)) p s = []"
      using i(5) Nil by (auto simp: less_Suc_eq_0_disj)
    with i show ?thesis by (intro exI[of _ "Suc i"]) simp
  next
    case (Cons x xs)
    with Cons.prems have "snd r = t" "x = m" by auto
    with Cons show ?thesis by (intro exI[of _ 0]) simp
  qed
qed

lemma first_rule_none:
  "first_rule rs p s = None \<Longrightarrow> j < length rs \<Longrightarrow> matches (fst (rs ! j)) p s = []"
proof (induction rs arbitrary: j)
  case Nil
  then show ?case by simp
next
  case (Cons r rs)
  then show ?case by (cases j) (auto split: list.splits)
qed

lemma prev_after_Cons: "prev_after (Some c) b = prev_after p (c # b)"
  by (simp add: prev_after_def)

lemma exec_sound:
  "exec rs p s = Some (pre, t, lexeme, p', s') \<Longrightarrow>
     \<exists>i < length rs. snd (rs ! i) = t
        \<and> matches (fst (rs ! i)) (prev_after p pre) (lexeme @ s') \<noteq> []
        \<and> hd (matches (fst (rs ! i)) (prev_after p pre) (lexeme @ s')) = (p', s')
        \<and> (\<forall>j < i. matches (fst (rs ! j)) (prev_after p pre) (lexeme @ s') = [])"
proof (induction s arbitrary: p pre)
  case Nil
  then obtain m where fr: "first_rule rs p [] = Some (t, m)" and m: "m = (p', s')" and e: "pre = []" "lexeme = []"
    by (auto split: option.splits)
  from exec_split[OF Nil.prems] have "s' = []" by simp
  with first_rule_sound[OF fr] m e show ?case by (simp add: prev_after_def)
next
  case (Cons c cs)
  show ?case
  proof (cases "first_rule rs p (c # cs)")
    case None
    with Cons.prems obtain b where b: "pre = c # b" and e: "exec rs (Some c) cs = Some (b, t, lexeme, p', s')"
      by (auto split: option.splits)
    from Cons.IH[OF e] show ?thesis unfolding b prev_after_Cons[of c b p] .
  next
    case (Some x)
    obtain t0 p0 s0 where x: "x = (t0, p0, s0)" by (cases x) auto
    from Some x Cons.prems have eq: "pre = []" "t = t0" "p' = p0" "s' = s0" by auto
    from exec_split[OF Cons.prems] eq have sp: "c # cs = lexeme @ s'" by simp
    from first_rule_sound[OF Some[unfolded x]] eq sp show ?thesis
      by (simp add: prev_after_def)
  qed
qed

lemma exec_leftmost:
  "exec rs p s = Some (pre, t, lexeme, p', s') \<Longrightarrow> k < length pre \<Longrightarrow> j < length rs \<Longrightarrow>
     matches (fst (rs ! j)) (prev_after p (take k pre)) (drop k pre @ lexeme @ s') = []"
proof (induction s arbitrary: p pre k)
  case Nil
  then show ?case by (auto split: option.splits)
next
  case (Cons c cs)
  show ?case
  proof (cases "first_rule rs p (c # cs)")
    case None
    with Cons.prems obtain b where b: "pre = c # b" and e: "exec rs (Some c) cs = Some (b, t, lexeme, p', s')"
      by (auto split: option.splits)
    from exec_split[OF Cons.prems(1)] b have sp: "cs = b @ lexeme @ s'" by simp
    show ?thesis
    proof (cases k)
      case 0
      with first_rule_none[OF None Cons.prems(3)] b sp show ?thesis
        by (simp add: prev_after_def)
    next
      case (Suc k')
      with Cons.prems b have "k' < length b" by simp
      from Cons.IH[OF e this Cons.prems(3)]
      have m: "matches (fst (rs ! j)) (prev_after (Some c) (take k' b)) (drop k' b @ lexeme @ s') = []" .
      have "prev_after p (take k pre) = prev_after (Some c) (take k' b)"
        unfolding Suc b by (simp add: prev_after_def)
      moreover have "drop k pre = drop k' b" unfolding Suc b by simp
      ultimately show ?thesis using m by simp
    qed
  next
    case (Some x)
    obtain t0 p0 s0 where x: "x = (t0, p0, s0)" by (cases x) auto
    from Some x Cons.prems have "pre = []" by auto
    with Cons.prems show ?thesis by simp
  qed
qed

lemma run_induct2 [case_names step]:
  assumes "\<And>L st p s buf.
      (\<And>pre m lexeme p' s'. exec (matcher L st) p s = Some (pre, Begin m, lexeme, p', s') \<Longrightarrow>
          lexeme \<noteq> [] \<Longrightarrow> P L (m # st) p' s' lexeme) \<Longrightarrow>
      (\<And>pre lexeme p' s' cur parent. exec (matcher L st) p s = Some (pre, End, lexeme, p', s') \<Longrightarrow>
          st = cur # parent \<Longrightarrow> endOfMode cur (lexeme @ s') \<Longrightarrow> returns_end cur \<Longrightarrow>
          P L parent (prev_after p pre) (lexeme @ s') []) \<Longrightarrow>
      (\<And>pre lexeme p' s' cur parent. exec (matcher L st) p s = Some (pre, End, lexeme, p', s') \<Longrightarrow>
          st = cur # parent \<Longrightarrow> endOfMode cur (lexeme @ s') \<Longrightarrow> \<not> returns_end cur \<Longrightarrow>
          P L parent p' s' []) \<Longrightarrow>
      (\<And>pre lexeme p' s' cur parent. exec (matcher L st) p s = Some (pre, End, lexeme, p', s') \<Longrightarrow>
          st = cur # parent \<Longrightarrow> \<not> endOfMode cur (lexeme @ s') \<Longrightarrow> lexeme \<noteq> [] \<Longrightarrow>
          P L st p' s' (buf @ pre @ lexeme)) \<Longrightarrow>
      P L st p s buf"
  shows "P L st p s buf"
proof (induction L st p s buf rule: run.induct)
  case (1 L stack p s buf)
  show ?case
  proof (rule assms)
    fix pre m lexeme p' s'
    assume "exec (matcher L stack) p s = Some (pre, Begin m, lexeme, p', s')" "lexeme \<noteq> []"
    then show "P L (m # stack) p' s' lexeme"
      by (rule "1.IH"(1)[OF _ refl refl refl refl refl])
  next
    fix pre lexeme p' s' cur parent
    assume "exec (matcher L stack) p s = Some (pre, End, lexeme, p', s')" "stack = cur # parent"
      "endOfMode cur (lexeme @ s')" "returns_end cur"
    then show "P L parent (prev_after p pre) (lexeme @ s') []"
      by (rule "1.IH"(2)[OF _ refl refl refl refl refl])
  next
    fix pre lexeme p' s' cur parent
    assume "exec (matcher L stack) p s = Some (pre, End, lexeme, p', s')" "stack = cur # parent"
      "endOfMode cur (lexeme @ s')" "\<not> returns_end cur"
    then show "P L parent p' s' []"
      by (rule "1.IH"(3)[OF _ refl refl refl refl refl])
  next
    fix pre lexeme p' s' cur parent
    assume "exec (matcher L stack) p s = Some (pre, End, lexeme, p', s')" "stack = cur # parent"
      "\<not> endOfMode cur (lexeme @ s')" "lexeme \<noteq> []"
    then show "P L stack p' s' (buf @ pre @ lexeme)"
      by (rule "1.IH"(4)[OF _ refl refl refl refl refl])
  qed
qed

lemma run_begin:
  "exec (matcher L st) p s = Some (pre, Begin m, lexeme, p', s') \<Longrightarrow> lexeme \<noteq> [] \<Longrightarrow>
   run L st p s buf =
     and_then (processBuffer L st (buf @ pre)) (emit (openNode m) (run L (m # st) p' s' lexeme))"
  by (subst run.simps) simp

lemma run_eof:
  "exec (matcher L st) p s = None \<Longrightarrow>
   run L st p s buf = and_then (processBuffer L st (buf @ s)) (Inr (concat (map closeNode st)))"
  by (subst run.simps) simp

lemma run_end:
  "exec (matcher L (cur # parent)) p s = Some (pre, End, lexeme, p', s') \<Longrightarrow>
   endOfMode cur (lexeme @ s') \<Longrightarrow> \<not> returns_end cur \<Longrightarrow>
   run L (cur # parent) p s buf =
     and_then (processBuffer L (cur # parent) (buf @ pre @ lexeme))
       (emit (closeNode cur @ [Score (mode_relevance cur)]) (run L parent p' s' []))"
  by (subst run.simps) simp

lemma run_return_end:
  "exec (matcher L (cur # parent)) p s = Some (pre, End, lexeme, p', s') \<Longrightarrow>
   endOfMode cur (lexeme @ s') \<Longrightarrow> returns_end cur \<Longrightarrow>
   run L (cur # parent) p s buf =
     and_then (processBuffer L (cur # parent) (buf @ pre))
       (emit (closeNode cur @ [Score (mode_relevance cur)])
          (run L parent (prev_after p pre) (lexeme @ s') []))"
  by (subst run.simps) simp

lemma run_skip_end:
  "exec (matcher L (cur # parent)) p s = Some (pre, End, lexeme, p', s') \<Longrightarrow>
   \<not> endOfMode cur (lexeme @ s') \<Longrightarrow> lexeme \<noteq> [] \<Longrightarrow>
   run L (cur # parent) p s buf = run L (cur # parent) p' s' (buf @ pre @ lexeme)"
  by (subst run.simps) simp

lemma exec_here:
  "first_rule rs p s = Some (t, p', s') \<Longrightarrow>
   exec rs p s = Some ([], t, take (length s - length s') s, p', s')"
  by (cases s) (auto dest: first_rule_suffix)

lemma exec_skip:
  "first_rule rs p (c # s) = None \<Longrightarrow>
   exec rs p (c # s) = (case exec rs (Some c) s of None \<Rightarrow> None | Some (b, x) \<Rightarrow> Some (c # b, x))"
  by simp

lemma run_skip:
  assumes "first_rule (matcher L st) p (c # s) = None"
  shows "run L st p (c # s) buf = run L st (Some c) s (buf @ [c])"
proof (cases "exec (matcher L st) (Some c) s")
  case None
  from None assms have e: "exec (matcher L st) p (c # s) = None" by simp
  show ?thesis
    unfolding run.simps[of L st p "c # s"] run.simps[of L st "Some c" s] e None
    by simp
next
  case (Some x)
  obtain b t l p' s' where x: "x = (b, t, l, p', s')" by (cases x) auto
  have pa: "prev_after p (c # b) = prev_after (Some c) b" by (simp add: prev_after_def)
  from Some x assms have e: "exec (matcher L st) p (c # s) = Some (c # b, t, l, p', s')" by simp
  show ?thesis
    unfolding run.simps[of L st p "c # s"] run.simps[of L st "Some c" s] e Some x
    by (simp add: pa split: match_type.splits list.splits)
qed

lemma run_begin_here:
  assumes "first_rule (matcher L st) p (l @ s') = Some (Begin m, p', s')" "l \<noteq> []"
  shows "run L st p (l @ s') buf =
     and_then (processBuffer L st buf) (emit (openNode m) (run L (m # st) p' s' l))"
  using run_begin[OF exec_here[OF assms(1)], of buf] assms(2) by simp

lemma run_end_here:
  assumes "first_rule (matcher L (cur # parent)) p (l @ s') = Some (End, p', s')"
    "endOfMode cur (l @ s')" "\<not> returns_end cur"
  shows "run L (cur # parent) p (l @ s') buf =
     and_then (processBuffer L (cur # parent) (buf @ l))
       (emit (closeNode cur @ [Score (mode_relevance cur)]) (run L parent p' s' []))"
  using run_end[OF _ _ assms(3), of L parent p "l @ s'" "[]" l p' s' buf] exec_here[OF assms(1)] assms(2)
  by simp

text \<open>A mode with no children and no end pattern closes at once.\<close>

lemma default_re_matches: "matches default_re p s \<noteq> []"
  by (simp add: default_re_def)

lemma hd_default_re: "hd (matches default_re p s) = (p, s)"
  by (simp add: default_re_def)

lemma run_leaf:
  assumes "m = Mode c b None [] False rel []"
  shows "run L (m # st) p s buf =
     emit (addText buf @ closeNode m @ [Score (mode_relevance m)]) (run L st p s [])"
proof -
  have mt: "matcher L (m # st) = [(default_re, End)]"
    using assms by (simp add: matcher_def)
  obtain x xs where mm: "matches default_re p s = x # xs"
    using default_re_matches[of p s] by (cases "matches default_re p s") auto
  with hd_default_re[of p s] have x: "x = (p, s)" by simp
  have fr: "first_rule (matcher L (m # st)) p ([] @ s) = Some (End, p, s)"
    by (simp add: mt mm x)
  have eom: "endOfMode m ([] @ s)" using assms by (simp add: endOfMode_def default_re_matches)
  have nr: "\<not> returns_end m" using assms by simp
  from run_end_here[OF fr eom nr, of buf] show ?thesis
    by (simp add: processBuffer_def and_then_def emit_def split: sum.splits)
qed

lemma matcher_entry:
  "i < length (matcher L st) \<Longrightarrow> snd (matcher L st ! i) = Begin m \<Longrightarrow> fst (matcher L st ! i) = beginRe m"
  by (cases st) (auto simp: matcher_def nth_append split: if_splits)

lemma top_matcher:
  "matcher L [] = map (\<lambda>k. (beginRe k, Begin k)) (concat (map expand (contains L)))"
  by (simp add: matcher_def)

subsection \<open>The table at the top level\<close>

text \<open>The compiled rule list of the language, and the first characters its rules need.\<close>

lemma expand_STRING: "expand (STRING hljs_lib) = [quoted squote, quoted dquote]"
  by (simp add: STRING_def quoted_def)

lemma antlr_top_matcher:
  "matcher (antlrLanguage hljs_lib) [] =
    [(beginRe (C_LINE_COMMENT_MODE hljs_lib), Begin (C_LINE_COMMENT_MODE hljs_lib)),
     (beginRe (C_BLOCK_COMMENT_MODE hljs_lib), Begin (C_BLOCK_COMMENT_MODE hljs_lib)),
     (beginRe GRAMMAR_TYPE, Begin GRAMMAR_TYPE),
     (beginRe HEADER, Begin HEADER),
     (beginRe (OPTION hljs_lib), Begin (OPTION hljs_lib)),
     (beginRe (ACTION_CODE hljs_lib), Begin (ACTION_CODE hljs_lib)),
     (beginRe RULE_NAME, Begin RULE_NAME),
     (beginRe TOKEN_NAME, Begin TOKEN_NAME),
     (beginRe (quoted squote), Begin (quoted squote)),
     (beginRe (quoted dquote), Begin (quoted dquote)),
     (beginRe RANGE, Begin RANGE),
     (beginRe OPERATORS, Begin OPERATORS),
     (beginRe SPECIAL_CHARS, Begin SPECIAL_CHARS),
     (beginRe DOT, Begin DOT),
     (Chr CHR '':'', Begin (Mode (Some ''punctuation'') (Some (Chr CHR '':'')) None [] False None [])),
     (Chr CHR ''|'', Begin (Mode (Some ''operator'') (Some (Chr CHR ''|'')) None [] False None [])),
     (Chr CHR '';'', Begin (Mode (Some ''punctuation'') (Some (Chr CHR '';'')) None [] False None []))]"
  by (simp add: matcher_def antlrLanguage_def expand_STRING)
     (simp add: table_defs)

lemma in_any: "in_ranges c [(CHR 0x00, CHR 0xFF)]"
proof -
  have "(of_char c :: nat) mod 256 = of_char c" by simp
  then have "(of_char c :: nat) < 256" by (metis mod_less_divisor zero_less_numeral)
  then have "(of_char c :: nat) \<le> 255" by linarith
  then show ?thesis by (simp add: in_ranges_def)
qed

lemma letter_facts:
  assumes "in_ranges c [lower] \<or> in_ranges c [upper]"
  shows "c \<noteq> CHR ''/''" "c \<noteq> CHR ''@''" "c \<noteq> CHR ''{''"
  using assms by (auto simp: in_ranges_def lower_def upper_def)

lemma upper_facts:
  assumes "in_ranges c [upper]"
  shows "\<not> in_ranges c [lower]" "c \<noteq> CHR ''g''" "c \<noteq> CHR ''l''" "c \<noteq> CHR ''p''" "c \<noteq> CHR ''o''"
  using assms by (auto simp: in_ranges_def lower_def upper_def)

lemma no_comment:
  "c \<noteq> CHR ''/'' \<Longrightarrow> matches (beginRe (C_LINE_COMMENT_MODE hljs_lib)) p (c # s) = []"
  "c \<noteq> CHR ''/'' \<Longrightarrow> matches (beginRe (C_BLOCK_COMMENT_MODE hljs_lib)) p (c # s) = []"
  by (simp_all add: hljs_lib_def)

lemma no_header: "c \<noteq> CHR ''@'' \<Longrightarrow> matches (beginRe HEADER) p (c # s) = []"
  by (simp add: HEADER_def)

lemma no_action: "c \<noteq> CHR ''{'' \<Longrightarrow> matches (beginRe (ACTION_CODE hljs_lib)) p (c # s) = []"
  by (simp add: ACTION_CODE_def)

lemma no_grammar_type:
  "c \<noteq> CHR ''g'' \<Longrightarrow> c \<noteq> CHR ''l'' \<Longrightarrow> c \<noteq> CHR ''p'' \<Longrightarrow> matches (beginRe GRAMMAR_TYPE) p (c # s) = []"
  by (simp add: GRAMMAR_TYPE_def Plus_def)

lemma no_option: "c \<noteq> CHR ''o'' \<Longrightarrow> matches (beginRe (OPTION hljs_lib)) p (c # s) = []"
  by (simp add: OPTION_def)

lemma no_rule_name: "\<not> in_ranges c [lower] \<Longrightarrow> matches (beginRe RULE_NAME) p (c # s) = []"
  by (simp add: RULE_NAME_def split: option.splits)

lemma star_class_greedy:
  assumes "\<forall>x \<in> set cs. in_ranges x R" "\<not> starts_with R rest"
  shows "\<exists>tl. matches (Star (Cls R)) p (cs @ rest) = (prev_after p cs, rest) # tl"
  using assms(1)
proof (induction cs arbitrary: p)
  case Nil
  from assms(2) have "matches (Cls R) p rest = []"
    by (cases rest) (simp_all add: starts_with_def)
  then show ?case by (simp add: matches.simps(11) prev_after_def)
next
  case (Cons x cs)
  then have x: "in_ranges x R" and cs: "\<forall>x \<in> set cs. in_ranges x R" by auto
  from Cons.IH[OF cs, of "Some x"] obtain tl where
    tl: "matches (Star (Cls R)) (Some x) (cs @ rest) = (prev_after (Some x) cs, rest) # tl" by blast
  have pa: "prev_after (Some x) cs = prev_after p (x # cs)" by (simp add: prev_after_def)
  from x tl show ?case
    by (simp add: matches.simps(11)[of "Cls R" p] pa)
qed

lemma span_text_addText: "span_text d (addText b @ es) = b @ span_text d es"
  by (simp add: addText_def)

lemma spans_addText: "spans (addText b @ es) = spans es"
  by (simp add: addText_def)

section \<open>The loop returns, and keeps the text\<close>

text \<open>
  For this table the loop never ends in one of its error values: every begin pattern
  consumes a character and every end pattern is found again by the end handler. The
  proof goes over the modes that can be open.
\<close>

lemma nonempty_consumes:
  "nonempty r \<Longrightarrow> m \<in> set (matches r p s) \<Longrightarrow> length (snd m) < length s"
proof (induction r arbitrary: p s m)
  case (Seq a b)
  from Seq.prems(2) obtain m1 where m1: "m1 \<in> set (matches a p s)"
    and m: "m \<in> set (matches b (fst m1) (snd m1))" by auto
  from matches_suffix[OF m1] have l1: "length (snd m1) \<le> length s" by (metis length_append le_add2)
  from matches_suffix[OF m] have l2: "length (snd m) \<le> length (snd m1)" by (metis length_append le_add2)
  from Seq.prems(1) consider "nonempty a" | "nonempty b" by auto
  then show ?case
  proof cases
    case 1
    from Seq.IH(1)[OF 1 m1] l2 show ?thesis by simp
  next
    case 2
    from Seq.IH(2)[OF 2 m] l1 show ?thesis by simp
  qed
next
  case (Alt a b)
  then show ?case by (cases m) fastforce
qed (auto split: list.splits if_splits)

lemma children_modes:
  "children (C_LINE_COMMENT_MODE hljs_lib) = []"
  "children (C_BLOCK_COMMENT_MODE hljs_lib) = []"
  "children GRAMMAR_TYPE = []"
  "children HEADER = [header_key]"
  "children (OPTION hljs_lib) =
     [option_key, quoted squote, quoted dquote, C_LINE_COMMENT_MODE hljs_lib, C_BLOCK_COMMENT_MODE hljs_lib]"
  "children (ACTION_CODE hljs_lib) =
     [inner_block, C_LINE_COMMENT_MODE hljs_lib, C_BLOCK_COMMENT_MODE hljs_lib, quoted squote, quoted dquote]"
  "children RULE_NAME = []"
  "children TOKEN_NAME = []"
  "children (quoted q) = [BACKSLASH_ESCAPE hljs_lib]"
  "children RANGE = [range_escape, range_hyphen]"
  "children OPERATORS = []"
  "children SPECIAL_CHARS = []"
  "children DOT = []"
  "children (Mode c b e [] r rel vs) = []"
  "children (BACKSLASH_ESCAPE hljs_lib) = []"
  "children inner_block = [inner_block]"
  "children option_key = []"
  "children header_key = []"
  "children range_escape = []"
  "children range_hyphen = []"
  by (simp_all add: table_defs quoted_def inner_block_def option_key_def header_key_def
        range_escape_def range_hyphen_def)

lemma antlr_modes_closed:
  "m \<in> set antlr_modes \<Longrightarrow> set (children m) \<subseteq> set antlr_modes"
  unfolding antlr_modes_def by (auto simp: children_modes)

lemma antlr_top_modes:
  "set (concat (map expand (contains (antlrLanguage hljs_lib)))) \<subseteq> set antlr_modes"
  unfolding antlr_modes_def
  by (simp add: antlrLanguage_def expand_STRING) (simp add: table_defs)

lemma antlr_begins_nonempty:
  "m \<in> set antlr_modes \<Longrightarrow> nonempty (beginRe m)"
  unfolding antlr_modes_def
  by (auto simp: table_defs class_defs quoted_def inner_block_def option_key_def header_key_def
        range_escape_def range_hyphen_def)

lemma ends_ok_cases:
  "endRe m = default_re \<Longrightarrow> ends_ok m"
  "endRe m = Chr c \<Longrightarrow> ends_ok m"
  "endRe m = Eol \<Longrightarrow> ends_ok m"
  "endRe m = Seq (Chr a) (Chr b) \<Longrightarrow> ends_ok m"
  by (auto simp: ends_ok_def endOfMode_def default_re_def split: list.splits if_splits)

lemma antlr_ends_ok:
  "m \<in> set antlr_modes \<Longrightarrow> ends_ok m"
  unfolding antlr_modes_def
  by (auto simp: table_defs quoted_def inner_block_def option_key_def header_key_def
        range_escape_def range_hyphen_def intro: ends_ok_cases)

lemma keywords_total:
  "nonempty (pattern (lang_keywords L)) \<Longrightarrow> \<exists>es. processKeywords L p buf acc = Inr es"
proof (induction L p buf acc rule: processKeywords.induct)
  case (1 L p buf acc)
  show ?case
  proof (cases "exec [(pattern (lang_keywords L), End)] p buf")
    case None
    then show ?thesis by (simp add: processKeywords.simps[of L p buf])
  next
    case (Some x)
    obtain pre t word p' rest where x: "x = (pre, t, word, p', rest)" by (cases x) auto
    from exec_sound[OF Some[unfolded x]]
    have m: "matches (pattern (lang_keywords L)) (prev_after p pre) (word @ rest) \<noteq> []"
      and h: "hd (matches (pattern (lang_keywords L)) (prev_after p pre) (word @ rest)) = (p', rest)"
      by auto
    from m h have "(p', rest) \<in> set (matches (pattern (lang_keywords L)) (prev_after p pre) (word @ rest))"
      by (metis list.set_sel(1))
    from nonempty_consumes[OF "1.prems" this] have w: "word \<noteq> []" by auto
    show ?thesis
    proof (cases "word \<in> set (keyword_list L)")
      case True
      from "1.IH"(1)[OF Some[unfolded x] refl refl refl refl w True "1.prems"]
      obtain es where "processKeywords L p' rest [] = Inr es" by blast
      with Some x w True show ?thesis
        by (simp add: processKeywords.simps[of L p buf] emit_def)
    next
      case False
      from "1.IH"(2)[OF Some[unfolded x] refl refl refl refl w False "1.prems"]
      obtain es where "processKeywords L p' rest (acc @ pre @ word) = Inr es" by blast
      with Some x w False show ?thesis
        by (simp add: processKeywords.simps[of L p buf])
    qed
  qed
qed

lemma buffer_total:
  "nonempty (pattern (lang_keywords L)) \<Longrightarrow> \<exists>es. processBuffer L st buf = Inr es"
  by (cases st) (simp_all add: processBuffer_def keywords_total)

lemma antlr_pattern_nonempty: "nonempty (pattern (lang_keywords (antlrLanguage h)))"
  by (simp add: antlrLanguage_def KEYWORDS_def ident_re_def)

lemma matcher_begin_member:
  assumes "i < length (matcher L st)" "snd (matcher L st ! i) = Begin m"
  shows "m \<in> (case st of [] \<Rightarrow> set (concat (map expand (contains L))) | cur # _ \<Rightarrow> set (children cur))"
proof (cases st)
  case Nil
  with assms have "i < length (concat (map expand (contains L)))"
    "m = concat (map expand (contains L)) ! i" by (auto simp: matcher_def)
  then have "m \<in> set (concat (map expand (contains L)))" using nth_mem by blast
  with Nil show ?thesis by simp
next
  case (Cons cur parent)
  with assms have "i < length (children cur)"
    by (auto simp: matcher_def nth_append split: if_splits)
  with assms Cons show ?thesis by (auto simp: matcher_def nth_append)
qed

lemma matcher_end_entry:
  assumes "i < length (matcher L st)" "snd (matcher L st ! i) = End"
  shows "\<exists>cur parent. st = cur # parent \<and> fst (matcher L st ! i) = endRe cur"
proof (cases st)
  case Nil
  with assms show ?thesis by (auto simp: matcher_def)
next
  case (Cons cur parent)
  with assms show ?thesis
    by (auto simp: matcher_def nth_append split: if_splits)
qed

lemma and_then_total:
  "a = Inr x \<Longrightarrow> r = Inr y \<Longrightarrow> and_then a (emit es r) = Inr (x @ es @ y)"
  by (simp add: and_then_def emit_def)

lemma run_total:
  "L = antlrLanguage hljs_lib \<Longrightarrow> set st \<subseteq> set antlr_modes \<Longrightarrow> \<exists>es. run L st p s buf = Inr es"
proof (induction L st p s buf rule: run_induct2)
  case (step L st p s buf)
  note L = step.prems(1) and st = step.prems(2)
  have kw: "nonempty (pattern (lang_keywords L))" unfolding L by (rule antlr_pattern_nonempty)
  show ?case
  proof (cases "exec (matcher L st) p s")
    case None
    from buffer_total[OF kw, of st "buf @ s"] obtain x where "processBuffer L st (buf @ s) = Inr x" by blast
    with run_eof[OF None, of buf] show ?thesis by (simp add: and_then_def emit_def)
  next
    case (Some x)
    obtain pre t lexeme p' s' where x: "x = (pre, t, lexeme, p', s')" by (cases x) auto
    note e = Some[unfolded x]
    from exec_sound[OF e] obtain i where i: "i < length (matcher L st)" "snd (matcher L st ! i) = t"
      and m: "matches (fst (matcher L st ! i)) (prev_after p pre) (lexeme @ s') \<noteq> []"
      and h: "hd (matches (fst (matcher L st ! i)) (prev_after p pre) (lexeme @ s')) = (p', s')"
      by blast
    show ?thesis
    proof (cases t)
      case (Begin k)
      from matcher_begin_member[OF i(1) i(2)[unfolded Begin]] st antlr_top_modes antlr_modes_closed
      have k: "k \<in> set antlr_modes" unfolding L by (cases st) auto
      from matcher_entry[OF i(1) i(2)[unfolded Begin]] m h
      have "(p', s') \<in> set (matches (beginRe k) (prev_after p pre) (lexeme @ s'))"
        by (metis list.set_sel(1))
      from nonempty_consumes[OF antlr_begins_nonempty[OF k] this] have ne: "lexeme \<noteq> []" by auto
      from k st have "set (k # st) \<subseteq> set antlr_modes" by simp
      from step.IH(1)[OF e[unfolded Begin] ne L this] obtain y where
        y: "run L (k # st) p' s' lexeme = Inr y" by blast
      from buffer_total[OF kw, of st "buf @ pre"] obtain b where b: "processBuffer L st (buf @ pre) = Inr b"
        by blast
      from run_begin[OF e[unfolded Begin] ne, of buf] and_then_total[OF b y] show ?thesis by simp
    next
      case End
      from matcher_end_entry[OF i(1) i(2)[unfolded End]] obtain cur parent where
        cp: "st = cur # parent" and f: "fst (matcher L st ! i) = endRe cur" by blast
      from st cp have cur: "cur \<in> set antlr_modes" and par: "set parent \<subseteq> set antlr_modes" by auto
      from antlr_ends_ok[OF cur] m f have eom: "endOfMode cur (lexeme @ s')"
        by (simp add: ends_ok_def)
      note e1 = e[unfolded End cp]
      show ?thesis
      proof (cases "returns_end cur")
        case True
        from step.IH(2)[OF e[unfolded End] cp eom True L par] obtain y where
          y: "run L parent (prev_after p pre) (lexeme @ s') [] = Inr y" by blast
        from buffer_total[OF kw, of "cur # parent" "buf @ pre"] obtain b where
          b: "processBuffer L (cur # parent) (buf @ pre) = Inr b" by blast
        from run_return_end[OF e1 eom True, of buf] and_then_total[OF b y] show ?thesis
          unfolding cp by simp
      next
        case False
        from step.IH(3)[OF e[unfolded End] cp eom False L par] obtain y where
          y: "run L parent p' s' [] = Inr y" by blast
        from buffer_total[OF kw, of "cur # parent" "buf @ pre @ lexeme"] obtain b where
          b: "processBuffer L (cur # parent) (buf @ pre @ lexeme) = Inr b" by blast
        from run_end[OF e1 eom False, of buf] and_then_total[OF b y] show ?thesis
          unfolding cp by simp
      qed
    qed
  qed
qed

text \<open>
  For every input, highlighting with the table returns a sequence of output calls.
\<close>

theorem highlight_total: "\<exists>es. highlight (antlrLanguage hljs_lib) code = Inr es"
  unfolding highlight_def by (rule run_total) simp_all

lemma texts_append: "texts (a @ b) = texts a @ texts b"
  by (induction a rule: texts.induct) simp_all

lemma texts_addText: "texts (addText b) = b"
  by (simp add: addText_def)

lemma keywords_texts:
  "processKeywords L p buf acc = Inr es \<Longrightarrow> texts es = acc @ buf"
proof (induction L p buf acc arbitrary: es rule: processKeywords.induct)
  case (1 L p buf acc)
  show ?case
  proof (cases "exec [(pattern (lang_keywords L), End)] p buf")
    case None
    with "1.prems" have "es = addText (acc @ buf)" by (simp add: processKeywords.simps[of L p buf])
    then show ?thesis by (simp only: texts_addText)
  next
    case (Some x)
    obtain pre t word p' rest where x: "x = (pre, t, word, p', rest)" by (cases x) auto
    from exec_split[OF Some[unfolded x]] have sp: "buf = pre @ word @ rest" .
    show ?thesis
    proof (cases "word = []")
      case True
      with "1.prems" Some x show ?thesis by (simp add: processKeywords.simps[of L p buf])
    next
      case w: False
      show ?thesis
      proof (cases "word \<in> set (keyword_list L)")
        case True
        with "1.prems" Some x w obtain es' where es': "processKeywords L p' rest [] = Inr es'"
          and es: "es = addText (acc @ pre) @ [OpenNode ''keyword'', AddText word, CloseNode] @ es'"
          by (auto simp: processKeywords.simps[of L p buf] emit_def split: sum.splits)
        from "1.IH"(1)[OF Some[unfolded x] refl refl refl refl w True es'] es sp show ?thesis
          by (simp add: texts_append texts_addText)
      next
        case False
        with "1.prems" Some x w have "processKeywords L p' rest (acc @ pre @ word) = Inr es"
          by (simp add: processKeywords.simps[of L p buf])
        from "1.IH"(2)[OF Some[unfolded x] refl refl refl refl w False this] sp show ?thesis by simp
      qed
    qed
  qed
qed

lemma buffer_texts: "processBuffer L st buf = Inr es \<Longrightarrow> texts es = buf"
  by (cases st) (auto simp: processBuffer_def texts_addText dest: keywords_texts)

lemma texts_openNode: "texts (openNode m) = []"
  by (simp add: openNode_def split: option.splits)

lemma texts_closeNode: "texts (closeNode m) = []"
  by (simp add: closeNode_def split: option.splits)

lemma texts_closeAll: "texts (concat (map closeNode st)) = []"
  by (induction st) (simp_all add: texts_append texts_closeNode)

lemma and_then_Inr:
  "and_then a (emit es r) = Inr z \<Longrightarrow> \<exists>x y. a = Inr x \<and> r = Inr y \<and> z = x @ es @ y"
  by (auto simp: and_then_def emit_def split: sum.splits)

lemma run_texts:
  "run L st p s buf = Inr es \<Longrightarrow> texts es = buf @ s"
proof (induction L st p s buf arbitrary: es rule: run_induct2)
  case (step L st p s buf)
  show ?case
  proof (cases "exec (matcher L st) p s")
    case None
    from step.prems run_eof[OF None, of buf] obtain x where
      "processBuffer L st (buf @ s) = Inr x" "es = x @ concat (map closeNode st)"
      by (auto simp: and_then_def emit_def split: sum.splits)
    with buffer_texts[of L st "buf @ s" x] show ?thesis by (simp add: texts_append texts_closeAll)
  next
    case (Some x)
    obtain pre t lexeme p' s' where x: "x = (pre, t, lexeme, p', s')" by (cases x) auto
    note e = Some[unfolded x]
    from exec_split[OF e] have sp: "s = pre @ lexeme @ s'" .
    show ?thesis
    proof (cases t)
      case (Begin k)
      show ?thesis
      proof (cases "lexeme = []")
        case True
        with step.prems e Begin show ?thesis by (simp add: run.simps[of L st p s])
      next
        case False
        from step.prems run_begin[OF e[unfolded Begin] False, of buf]
        have "and_then (processBuffer L st (buf @ pre)) (emit (openNode k) (run L (k # st) p' s' lexeme)) = Inr es"
          by simp
        from and_then_Inr[OF this] obtain b y where b: "processBuffer L st (buf @ pre) = Inr b"
          and y: "run L (k # st) p' s' lexeme = Inr y" and es: "es = b @ openNode k @ y" by blast
        from step.IH(1)[OF e[unfolded Begin] False y] buffer_texts[OF b] es sp show ?thesis
          by (simp add: texts_append texts_openNode)
      qed
    next
      case End
      show ?thesis
      proof (cases st)
        case Nil
        with step.prems e End show ?thesis by (simp add: run.simps[of L "[]" p s])
      next
        case (Cons cur parent)
        note e1 = e[unfolded End Cons]
        show ?thesis
        proof (cases "endOfMode cur (lexeme @ s')")
          case eom: True
          show ?thesis
          proof (cases "returns_end cur")
            case True
            from step.prems run_return_end[OF e1 eom True, of buf]
            have "and_then (processBuffer L (cur # parent) (buf @ pre))
                (emit (closeNode cur @ [Score (mode_relevance cur)])
                   (run L parent (prev_after p pre) (lexeme @ s') [])) = Inr es"
              unfolding Cons by simp
            from and_then_Inr[OF this] obtain b y where b: "processBuffer L (cur # parent) (buf @ pre) = Inr b"
              and y: "run L parent (prev_after p pre) (lexeme @ s') [] = Inr y"
              and es: "es = b @ (closeNode cur @ [Score (mode_relevance cur)]) @ y" by blast
            from step.IH(2)[OF e[unfolded End] Cons eom True y] buffer_texts[OF b] es sp show ?thesis
              by (simp add: texts_append texts_closeNode)
          next
            case False
            from step.prems run_end[OF e1 eom False, of buf]
            have "and_then (processBuffer L (cur # parent) (buf @ pre @ lexeme))
                (emit (closeNode cur @ [Score (mode_relevance cur)]) (run L parent p' s' [])) = Inr es"
              unfolding Cons by simp
            from and_then_Inr[OF this] obtain b y where
              b: "processBuffer L (cur # parent) (buf @ pre @ lexeme) = Inr b"
              and y: "run L parent p' s' [] = Inr y"
              and es: "es = b @ (closeNode cur @ [Score (mode_relevance cur)]) @ y" by blast
            from step.IH(3)[OF e[unfolded End] Cons eom False y] buffer_texts[OF b] es sp show ?thesis
              by (simp add: texts_append texts_closeNode)
          qed
        next
          case neom: False
          show ?thesis
          proof (cases "lexeme = []")
            case True
            with step.prems e1 neom show ?thesis unfolding Cons
              by (simp add: run.simps[of L "cur # parent" p s])
          next
            case False
            from step.prems run_skip_end[OF e1 neom False, of buf]
            have "run L st p' s' (buf @ pre @ lexeme) = Inr es" unfolding Cons by simp
            from step.IH(4)[OF e[unfolded End] Cons neom False this] sp show ?thesis by simp
          qed
        qed
      qed
    qed
  qed
qed

text \<open>
  For every input, the text added to the output, node after node, is the input: text no
  rule matches is kept as it is, between the nodes.
\<close>

theorem highlight_keeps_text:
  "\<exists>es. highlight (antlrLanguage hljs_lib) code = Inr es \<and> texts es = code"
proof -
  from highlight_total obtain es where es: "highlight (antlrLanguage hljs_lib) code = Inr es" by blast
  then have "texts es = code" unfolding highlight_def by (auto dest: run_texts)
  with es show ?thesis by blast
qed

text \<open>An input that begins with a construct of the top level: the output begins with its calls.\<close>

lemma start_buffer: "processBuffer (antlrLanguage h) [] [] = Inr []"
  by (simp add: processBuffer_def processKeywords.simps[of _ None "[]"] antlrLanguage_def
        KEYWORDS_def ident_re_def addText_def)

lemma highlight_begins:
  assumes "run (antlrLanguage hljs_lib) [] None code [] =
      and_then (processBuffer (antlrLanguage hljs_lib) [] [])
        (emit es (run (antlrLanguage hljs_lib) [] p rest []))"
  shows "\<exists>evs. highlight (antlrLanguage hljs_lib) code = Inr (es @ evs)"
proof -
  from run_total[of "antlrLanguage hljs_lib" "[]" p rest "[]"] obtain evs where
    "run (antlrLanguage hljs_lib) [] p rest [] = Inr evs" by auto
  with assms show ?thesis
    by (simp add: highlight_def start_buffer and_then_def emit_def)
qed

section \<open>C1: the scenario of the specification\<close>

lemma scenario_events:
  "highlight (antlrLanguage hljs_lib) scenario =
     Inr [OpenNode ''keyword'', AddText ''grammar'', CloseNode, Score 1,
      AddText '' '', OpenNode ''title.class'', AddText ''F'', CloseNode,
      Score 8, AddText ''oo'', OpenNode ''punctuation'', AddText '';'',
      CloseNode, Score 1, AddText '' '', OpenNode ''keyword'',
      AddText ''fragment'', CloseNode, AddText '' '',
      OpenNode ''title.class'', AddText ''X'', CloseNode, Score 8,
      OpenNode ''punctuation'', AddText '':'', CloseNode, Score 1,
      AddText '' '', OpenNode ''string'',
      AddText [squote, CHR ''a'', squote], CloseNode, Score 1,
      OpenNode ''built_in'', AddText ''.'', CloseNode, Score 1,
      OpenNode ''built_in'', AddText ''.'', CloseNode, Score 1,
      OpenNode ''string'', AddText [squote, CHR ''z'', squote], CloseNode,
      Score 1, OpenNode ''punctuation'', AddText '';'', CloseNode, Score 1]"
  unfolding scenario_def by code_simp

text \<open>
  Claim C1 as stated fails: the spans are not keyword \<^verbatim>\<open>grammar\<close>, title.class
  \<^verbatim>\<open>Foo\<close>, punctuation, keyword, title.class \<^verbatim>\<open>X\<close>, punctuation, string, operator
  \<^verbatim>\<open>..\<close>, string, punctuation. Whatever becomes of \<^verbatim>\<open>Foo\<close>, the two dots are not
  an operator span: no span of the output has the class operator. Each dot is taken by
  the rule \<^verbatim>\<open>DOT\<close> of the table, whose class is built_in and whose pattern is one dot;
  \<^verbatim>\<open>OPERATORS\<close> has no dot.
\<close>

theorem scenario_as_claimed_fails:
  "classify (antlrLanguage hljs_lib) scenario \<noteq>
     Inr [(''keyword'', ''grammar''), (''title.class'', ''Foo''), (''punctuation'', '';''),
          (''keyword'', ''fragment''), (''title.class'', ''X''), (''punctuation'', '':''),
          (''string'', [squote, CHR ''a'', squote]), (''operator'', ''..''),
          (''string'', [squote, CHR ''z'', squote]), (''punctuation'', '';'')]
   \<and> ''operator'' \<notin> set (map fst (projr (classify (antlrLanguage hljs_lib) scenario)))"
  by (simp add: classify_def scenario_events)

text \<open>
  Claim C1, as amended. For the text \<^verbatim>\<open>grammar Foo; fragment X: 'a'..'z';\<close> the
  classified spans are: first keyword \<^verbatim>\<open>grammar\<close>; then those of \<^verbatim>\<open>Foo\<close>, which the
  statement leaves open; then, in order, punctuation \<^verbatim>\<open>;\<close>, keyword \<^verbatim>\<open>fragment\<close>,
  title.class \<^verbatim>\<open>X\<close>, punctuation \<^verbatim>\<open>:\<close>, string \<^verbatim>\<open>'a'\<close>, built_in \<^verbatim>\<open>.\<close> twice (one
  span for each dot), string \<^verbatim>\<open>'z'\<close>, punctuation \<^verbatim>\<open>;\<close>.
\<close>

theorem scenario_classification:
  "\<exists>foo. classify (antlrLanguage hljs_lib) scenario =
     Inr ((''keyword'', ''grammar'') # foo @
          [(''punctuation'', '';''),
           (''keyword'', ''fragment''), (''title.class'', ''X''), (''punctuation'', '':''),
           (''string'', [squote, CHR ''a'', squote]), (''built_in'', ''.''), (''built_in'', ''.''),
           (''string'', [squote, CHR ''z'', squote]), (''punctuation'', '';'')])"
  by (rule exI[of _ "[(''title.class'', ''F'')]"]) (simp add: classify_def scenario_events)

section \<open>C2: nested action blocks\<close>
















section \<open>C3: string literals\<close>

lemma string_matcher:
  "matcher L (quoted q # st) =
     [(Seq (Chr backslash) any_class, Begin (BACKSLASH_ESCAPE hljs_lib)), (Chr q, End)]"
  by (simp add: matcher_def quoted_def hljs_lib_def)

lemma string_plain:
  "c \<noteq> q \<Longrightarrow> c \<noteq> backslash \<Longrightarrow> first_rule (matcher L (quoted q # st)) p (c # s) = None"
  by (simp add: string_matcher)

lemma string_escape:
  "first_rule (matcher L (quoted q # st)) p ([backslash, c] @ s) = Some (Begin (BACKSLASH_ESCAPE hljs_lib), Some c, s)"
  by (simp add: string_matcher any_class_def in_any)

lemma string_close:
  "q \<noteq> backslash \<Longrightarrow> first_rule (matcher L (quoted q # st)) p ([q] @ s) = Some (End, Some q, s)"
  by (simp add: string_matcher)

lemma string_body:
  assumes "q \<noteq> backslash" "\<forall>x \<in> set ps. string_piece q x"
  shows "run L (quoted q # st) p (concat (map render ps) @ q # rest) buf =
           emit (string_events q buf ps) (run L st (Some q) rest [])"
  using assms(2)
proof (induction ps arbitrary: p buf)
  case Nil
  have eom: "endOfMode (quoted q) ([q] @ rest)" by (simp add: endOfMode_def quoted_def)
  have nr: "\<not> returns_end (quoted q)" by (simp add: quoted_def)
  from run_end_here[OF string_close[OF assms(1)] eom nr, of L st p buf]
  show ?case
    by (simp add: processBuffer_def and_then_def emit_def addText_def closeNode_def quoted_def
        split: sum.splits)
next
  case (Cons x ps)
  show ?case
  proof (cases x)
    case (Plain c)
    with Cons.prems have c: "c \<noteq> q" "c \<noteq> backslash" by auto
    from Cons.prems have "\<forall>x \<in> set ps. string_piece q x" by simp
    from Cons.IH[OF this] run_skip[OF string_plain[OF c]] Plain show ?thesis by simp
  next
    case (Escaped c)
    from Cons.prems have "\<forall>x \<in> set ps. string_piece q x" by simp
    note ih = Cons.IH[OF this]
    have leaf: "run L (BACKSLASH_ESCAPE hljs_lib # quoted q # st) (Some c) s [backslash, c] =
        emit ([AddText [backslash, c], Score 0]) (run L (quoted q # st) (Some c) s [])" for s
      using run_leaf[of "BACKSLASH_ESCAPE hljs_lib" None "Some (Seq (Chr backslash) any_class)" "Some 0" L "quoted q # st" "Some c" s "[backslash, c]"]
      by (simp add: hljs_lib_def addText_def closeNode_def)
    have "run L (quoted q # st) p ([backslash, c] @ (concat (map render ps) @ q # rest)) buf =
        and_then (processBuffer L (quoted q # st) buf)
          (emit (openNode (BACKSLASH_ESCAPE hljs_lib))
             (run L (BACKSLASH_ESCAPE hljs_lib # quoted q # st) (Some c) (concat (map render ps) @ q # rest) [backslash, c]))"
      by (rule run_begin_here[OF string_escape]) simp
    with leaf ih Escaped show ?thesis
      by (simp add: processBuffer_def and_then_def emit_def openNode_def hljs_lib_def split: sum.splits)
  qed
qed

lemma top_squote:
  "first_rule (matcher (antlrLanguage hljs_lib) []) p ([squote] @ s) = Some (Begin (quoted squote), Some squote, s)"
  by (simp add: matcher_def table_defs class_defs quoted_def split: option.splits)

lemma top_dquote:
  "first_rule (matcher (antlrLanguage hljs_lib) []) p ([dquote] @ s) = Some (Begin (quoted dquote), Some dquote, s)"
  by (simp add: matcher_def table_defs class_defs quoted_def split: option.splits)

lemma span_text_string_events:
  "span_text 0 (string_events q buf ps @ tail) = buf @ concat (map render ps) @ [q]"
proof (induction ps arbitrary: buf)
  case Nil
  then show ?case by simp
next
  case (Cons x ps)
  then show ?case by (cases x) (simp_all add: span_text_addText)
qed

text \<open>
  Claim C3. When the loop, in the language's own mode, stands at a quote \<open>q\<close> (single or
  double) followed by pieces and the same quote, it opens a \<^verbatim>\<open>string\<close> node and closes
  it at that closing quote: the other quote among the pieces does not close it, nor
  does a quote after a backslash. So the output for an input that begins with the literal
  begins with these calls. The span of the node is the whole literal.
\<close>

theorem string_literal_span:
  assumes "q = squote \<or> q = dquote" and "\<forall>x \<in> set ps. string_piece q x"
  shows "run (antlrLanguage hljs_lib) [] p (q # concat (map render ps) @ q # rest) buf =
           and_then (processBuffer (antlrLanguage hljs_lib) [] buf)
             (emit (OpenNode ''string'' # string_events q [q] ps)
                (run (antlrLanguage hljs_lib) [] (Some q) rest []))
       \<and> (\<exists>evs. highlight (antlrLanguage hljs_lib) (q # concat (map render ps) @ q # rest) =
                  Inr (OpenNode ''string'' # string_events q [q] ps @ evs))
       \<and> span_text 0 (string_events q [q] ps @ tail) = q # concat (map render ps) @ [q]"
proof -
  let ?L = "antlrLanguage hljs_lib"
  from assms(1) have nb: "q \<noteq> backslash" by auto
  have main: "run ?L [] p0 (q # concat (map render ps) @ q # rest) b0 =
           and_then (processBuffer ?L [] b0)
             (emit (OpenNode ''string'' # string_events q [q] ps) (run ?L [] (Some q) rest []))" for p0 b0
  proof -
    from assms(1) have fr: "first_rule (matcher ?L []) p0 ([q] @ (concat (map render ps) @ q # rest))
        = Some (Begin (quoted q), Some q, concat (map render ps) @ q # rest)"
      using top_squote top_dquote by blast
    have "run ?L [] p0 ([q] @ (concat (map render ps) @ q # rest)) b0 =
        and_then (processBuffer ?L [] b0)
          (emit (openNode (quoted q)) (run ?L [quoted q] (Some q) (concat (map render ps) @ q # rest) [q]))"
      by (rule run_begin_here[OF fr]) simp
    with string_body[OF nb assms(2), of ?L "[]" "Some q" rest "[q]"] show ?thesis
      by (simp add: openNode_def quoted_def emit_def split: sum.splits)
  qed
  from highlight_begins[OF main[of None "[]"]]
  have hl: "\<exists>evs. highlight ?L (q # concat (map render ps) @ q # rest) =
                  Inr (OpenNode ''string'' # string_events q [q] ps @ evs)" by simp
  have sp: "span_text 0 (string_events q [q] ps @ tail) = q # concat (map render ps) @ [q]"
    using span_text_string_events[of q "[q]" ps tail] by simp
  from main[of p buf] hl sp show ?thesis by blast
qed

text \<open>The theorem at \<^verbatim>\<open>'it\'s "ok'\<close> followed by \<^verbatim>\<open> ;\<close>.\<close>

theorem string_literal_span_witness:
  "run (antlrLanguage hljs_lib) [] None (squote # concat (map render its_ok) @ squote # '' ;'') [] =
      and_then (processBuffer (antlrLanguage hljs_lib) [] [])
        (emit [OpenNode ''string'', AddText [squote, CHR ''i'', CHR ''t''], AddText [backslash, squote], Score 0,
               AddText [CHR ''s'', CHR '' '', dquote, CHR ''o'', CHR ''k'', squote], CloseNode, Score 1]
           (run (antlrLanguage hljs_lib) [] (Some squote) '' ;'' []))
   \<and> span_text 0 (string_events squote [squote] its_ok @ []) =
       [squote, CHR ''i'', CHR ''t'', backslash, squote, CHR ''s'', CHR '' '', dquote, CHR ''o'', CHR ''k'', squote]"
  using string_literal_span[of squote its_ok None "'' ;''" "[]" "[]"]
  by (simp add: its_ok_def addText_def)

section \<open>C4: rule names and token names\<close>

text \<open>
  The two rules, step by step, in the language's own mode. At the start of a line
  \<^verbatim>\<open>RULE_NAME\<close> takes a whole identifier that begins with a lowercase letter (where
  neither \<^verbatim>\<open>GRAMMAR_TYPE\<close> nor \<^verbatim>\<open>OPTION\<close> matches first). \<^verbatim>\<open>TOKEN_NAME\<close> takes an
  uppercase letter and the uppercase letters, digits and underscores after it, and stops
  before anything else, a lowercase letter included.
\<close>

lemma rule_name_match:
  assumes "line_start p" "in_ranges c [lower]"
    "\<forall>x \<in> set cs. in_ranges x [lower, upper, digit, underscore]"
    "\<not> starts_with [lower, upper, digit, underscore] rest"
  shows "\<exists>tl. matches (beginRe RULE_NAME) p (c # cs @ rest) = (Some (last (c # cs)), rest) # tl"
proof -
  from star_class_greedy[OF assms(3,4), of "Some c"] obtain tl where
    "matches (Star (Cls [lower, upper, digit, underscore])) (Some c) (cs @ rest) = (prev_after (Some c) cs, rest) # tl"
    by blast
  moreover have "prev_after (Some c) cs = Some (last (c # cs))" by (simp add: prev_after_def)
  moreover from assms(1) have "matches Bol p (c # cs @ rest) = [(p, c # cs @ rest)]"
    by (cases p) (simp_all add: line_start_def)
  ultimately show ?thesis using assms(2) by (simp add: RULE_NAME_def)
qed

lemma token_name_match:
  assumes "in_ranges c [upper]"
    "\<forall>x \<in> set cs. in_ranges x [upper, digit, underscore]"
    "\<not> starts_with [upper, digit, underscore] rest"
  shows "\<exists>tl. matches (beginRe TOKEN_NAME) p (c # cs @ rest) = (Some (last (c # cs)), rest) # tl"
proof -
  from star_class_greedy[OF assms(2,3), of "Some c"] obtain tl where
    "matches (Star (Cls [upper, digit, underscore])) (Some c) (cs @ rest) = (prev_after (Some c) cs, rest) # tl"
    by blast
  moreover have "prev_after (Some c) cs = Some (last (c # cs))" by (simp add: prev_after_def)
  ultimately show ?thesis using assms(1) by (simp add: TOKEN_NAME_def)
qed

lemma rule_name_step:
  assumes "line_start p" "in_ranges c [lower]"
    "\<forall>x \<in> set cs. in_ranges x [lower, upper, digit, underscore]"
    "\<not> starts_with [lower, upper, digit, underscore] rest"
    "matches (beginRe GRAMMAR_TYPE) p (c # cs @ rest) = []"
    "matches (beginRe (OPTION hljs_lib)) p (c # cs @ rest) = []"
  shows "run (antlrLanguage hljs_lib) [] p (c # cs @ rest) buf =
           and_then (processBuffer (antlrLanguage hljs_lib) [] buf)
             (emit [OpenNode ''title.function'', AddText (c # cs), CloseNode, Score 10]
                (run (antlrLanguage hljs_lib) [] (Some (last (c # cs))) rest []))"
proof -
  let ?L = "antlrLanguage hljs_lib"
  from rule_name_match[OF assms(1-4)] obtain tl where
    m: "matches (beginRe RULE_NAME) p (c # cs @ rest) = (Some (last (c # cs)), rest) # tl" by blast
  from assms(2) have f: "c \<noteq> CHR ''/''" "c \<noteq> CHR ''@''" "c \<noteq> CHR ''{''"
    using letter_facts by blast+
  have fr: "first_rule (matcher ?L []) p ((c # cs) @ rest) = Some (Begin RULE_NAME, Some (last (c # cs)), rest)"
    using m f assms(5,6)
    by (simp add: antlr_top_matcher no_comment no_header no_action del: beginRe.simps)
  have leaf: "run ?L [RULE_NAME] (Some (last (c # cs))) rest (c # cs) =
      emit [AddText (c # cs), CloseNode, Score 10] (run ?L [] (Some (last (c # cs))) rest [])"
    using run_leaf[of RULE_NAME _ _ _ ?L "[]" "Some (last (c # cs))" rest "c # cs"]
    by (simp add: RULE_NAME_def addText_def closeNode_def)
  have "run ?L [] p ((c # cs) @ rest) buf =
      and_then (processBuffer ?L [] buf)
        (emit (openNode RULE_NAME) (run ?L [RULE_NAME] (Some (last (c # cs))) rest (c # cs)))"
    by (rule run_begin_here[OF fr]) simp
  with leaf show ?thesis
    by (simp add: openNode_def RULE_NAME_def emit_def del: last.simps split: sum.splits)
qed

lemma token_name_step:
  assumes "in_ranges c [upper]"
    "\<forall>x \<in> set cs. in_ranges x [upper, digit, underscore]"
    "\<not> starts_with [upper, digit, underscore] rest"
  shows "run (antlrLanguage hljs_lib) [] p (c # cs @ rest) buf =
           and_then (processBuffer (antlrLanguage hljs_lib) [] buf)
             (emit [OpenNode ''title.class'', AddText (c # cs), CloseNode, Score 8]
                (run (antlrLanguage hljs_lib) [] (Some (last (c # cs))) rest []))"
proof -
  let ?L = "antlrLanguage hljs_lib"
  from token_name_match[OF assms] obtain tl where
    m: "matches (beginRe TOKEN_NAME) p (c # cs @ rest) = (Some (last (c # cs)), rest) # tl" by blast
  from assms(1) have f: "c \<noteq> CHR ''/''" "c \<noteq> CHR ''@''" "c \<noteq> CHR ''{''"
    using letter_facts by blast+
  note u = upper_facts[OF assms(1)]
  have fr: "first_rule (matcher ?L []) p ((c # cs) @ rest) = Some (Begin TOKEN_NAME, Some (last (c # cs)), rest)"
    using m f u
    by (simp add: antlr_top_matcher no_comment no_header no_action no_grammar_type no_option
          no_rule_name del: beginRe.simps)
  have leaf: "run ?L [TOKEN_NAME] (Some (last (c # cs))) rest (c # cs) =
      emit [AddText (c # cs), CloseNode, Score 8] (run ?L [] (Some (last (c # cs))) rest [])"
    using run_leaf[of TOKEN_NAME _ _ _ ?L "[]" "Some (last (c # cs))" rest "c # cs"]
    by (simp add: TOKEN_NAME_def addText_def closeNode_def)
  have "run ?L [] p ((c # cs) @ rest) buf =
      and_then (processBuffer ?L [] buf)
        (emit (openNode TOKEN_NAME) (run ?L [TOKEN_NAME] (Some (last (c # cs))) rest (c # cs)))"
    by (rule run_begin_here[OF fr]) simp
  with leaf show ?thesis
    by (simp add: openNode_def TOKEN_NAME_def emit_def del: last.simps split: sum.splits)
qed

lemma Foo_events:
  "highlight (antlrLanguage hljs_lib) ''Foo'' =
     Inr [OpenNode ''title.class'', AddText ''F'', CloseNode, Score 8, AddText ''oo'']"
  by code_simp

lemma grammar_Foo_events:
  "highlight (antlrLanguage hljs_lib) ''grammar Foo;'' =
     Inr [OpenNode ''keyword'', AddText ''grammar'', CloseNode, Score 1, AddText '' '',
          OpenNode ''title.class'', AddText ''F'', CloseNode, Score 8, AddText ''oo'',
          OpenNode ''punctuation'', AddText '';'', CloseNode, Score 1]"
  by code_simp

lemma fooBar_events:
  "highlight (antlrLanguage hljs_lib) ''fooBar'' =
     Inr [OpenNode ''title.function'', AddText ''fooBar'', CloseNode, Score 10]"
  by code_simp

text \<open>
  Claim C4 on the code. The identifier \<^verbatim>\<open>Foo\<close> begins with an uppercase letter, so the
  claim makes it a token reference (title.class). The pattern of \<^verbatim>\<open>TOKEN_NAME\<close>,
  \<^verbatim>\<open>[A-Z][A-Z0-9_]*\<close>, has no lowercase letters after the first character: only \<^verbatim>\<open>F\<close>
  is classified, and \<^verbatim>\<open>oo\<close> stays plain text, alone and in \<^verbatim>\<open>grammar Foo;\<close>. The
  sibling rule \<^verbatim>\<open>RULE_NAME\<close>, \<^verbatim>\<open>^[a-z][a-zA-Z0-9_]*\<close>, takes letters of both cases and
  classifies the whole of \<^verbatim>\<open>fooBar\<close>.
\<close>

theorem token_name_stops_at_lowercase:
  "classify (antlrLanguage hljs_lib) ''Foo'' = Inr [(''title.class'', ''F'')]
   \<and> classify (antlrLanguage hljs_lib) ''Foo'' \<noteq> Inr [(''title.class'', ''Foo'')]
   \<and> classify (antlrLanguage hljs_lib) ''grammar Foo;'' =
       Inr [(''keyword'', ''grammar''), (''title.class'', ''F''), (''punctuation'', '';'')]
   \<and> classify (antlrLanguage hljs_lib) ''fooBar'' = Inr [(''title.function'', ''fooBar'')]"
  by (simp add: classify_def Foo_events grammar_Foo_events fooBar_events)

text \<open>
  The same pattern has no anchor before the capital, so it also matches inside a word.
  \<^verbatim>\<open>popMode\<close> and \<^verbatim>\<open>pushMode\<close> are keywords of the table's own list, yet their \<^verbatim>\<open>M\<close>
  is taken as a token reference and the words are never seen whole; \<^verbatim>\<open>skip\<close>, of the
  same list, is classified as keyword.
\<close>

lemma token_name_inside_keyword:
  "classify (antlrLanguage hljs_lib) ''A -> popMode ;'' =
     Inr [(''title.class'', ''A''), (''title.class'', ''M''), (''punctuation'', '';'')]
   \<and> classify (antlrLanguage hljs_lib) ''A -> pushMode(B) ;'' =
     Inr [(''title.class'', ''A''), (''title.class'', ''M''), (''punctuation'', ''(''),
          (''title.class'', ''B''), (''punctuation'', '')''), (''punctuation'', '';'')]
   \<and> classify (antlrLanguage hljs_lib) ''A -> skip ;'' =
     Inr [(''title.class'', ''A''), (''keyword'', ''skip''), (''punctuation'', '';'')]"
  unfolding classify_def by code_simp

section \<open>C5: character-class ranges\<close>

lemma range_matcher:
  "matcher L (RANGE # st) =
     [(Seq (Chr backslash) Dot, Begin range_escape), (Chr CHR ''-'', Begin range_hyphen), (Chr CHR '']'', End)]"
  by (simp add: matcher_def RANGE_def range_escape_def range_hyphen_def)

lemma range_body:
  assumes "\<forall>x \<in> set ps. range_piece x"
  shows "run L (RANGE # st) p (concat (map render ps) @ CHR '']'' # rest) buf =
           emit (range_events buf ps) (run L st (Some CHR '']'') rest [])"
  using assms
proof (induction ps arbitrary: p buf)
  case Nil
  have fr: "first_rule (matcher L (RANGE # st)) p ('']'' @ rest) = Some (End, Some CHR '']'', rest)"
    by (simp add: range_matcher)
  have eom: "endOfMode RANGE ('']'' @ rest)" by (simp add: endOfMode_def RANGE_def)
  have nr: "\<not> returns_end RANGE" by (simp add: RANGE_def)
  from run_end_here[OF fr eom nr, of buf]
  show ?case
    by (simp add: processBuffer_def and_then_def emit_def addText_def closeNode_def RANGE_def
        split: sum.splits)
next
  case (Cons x ps)
  from Cons.prems have "\<forall>x \<in> set ps. range_piece x" by simp
  note ih = Cons.IH[OF this]
  show ?case
  proof (cases x)
    case (Plain c)
    with Cons.prems have c: "c \<noteq> CHR '']''" "c \<noteq> backslash" by auto
    show ?thesis
    proof (cases "c = CHR ''-''")
      case True
      have fr: "first_rule (matcher L (RANGE # st)) p (''-'' @ (concat (map render ps) @ CHR '']'' # rest))
          = Some (Begin range_hyphen, Some CHR ''-'', concat (map render ps) @ CHR '']'' # rest)"
        by (simp add: range_matcher)
      have leaf: "run L (range_hyphen # RANGE # st) (Some CHR ''-'') s ''-'' =
          emit [AddText ''-'', CloseNode, Score 1] (run L (RANGE # st) (Some CHR ''-'') s [])" for s
        using run_leaf[of range_hyphen "Some ''operator''" "Some (Chr CHR ''-'')" None L "RANGE # st" "Some CHR ''-''" s "''-''"]
        by (simp add: range_hyphen_def addText_def closeNode_def)
      have "run L (RANGE # st) p (''-'' @ (concat (map render ps) @ CHR '']'' # rest)) buf =
          and_then (processBuffer L (RANGE # st) buf)
            (emit (openNode range_hyphen)
               (run L (range_hyphen # RANGE # st) (Some CHR ''-'') (concat (map render ps) @ CHR '']'' # rest) ''-''))"
        by (rule run_begin_here[OF fr]) simp
      with leaf ih Plain True show ?thesis
        by (simp add: processBuffer_def and_then_def emit_def openNode_def range_hyphen_def split: sum.splits)
    next
      case False
      with c have "first_rule (matcher L (RANGE # st)) p (c # concat (map render ps) @ CHR '']'' # rest) = None"
        by (simp add: range_matcher)
      from run_skip[OF this] ih Plain False show ?thesis by simp
    qed
  next
    case (Escaped c)
    with Cons.prems have c: "\<not> line_terminator c" by simp
    have fr: "first_rule (matcher L (RANGE # st)) p ([backslash, c] @ (concat (map render ps) @ CHR '']'' # rest))
        = Some (Begin range_escape, Some c, concat (map render ps) @ CHR '']'' # rest)"
      using c by (simp add: range_matcher)
    have leaf: "run L (range_escape # RANGE # st) (Some c) s [backslash, c] =
        emit [AddText [backslash, c], Score 1] (run L (RANGE # st) (Some c) s [])" for s
      using run_leaf[of range_escape None "Some (Seq (Chr backslash) Dot)" None L "RANGE # st" "Some c" s "[backslash, c]"]
      by (simp add: range_escape_def addText_def closeNode_def)
    have "run L (RANGE # st) p ([backslash, c] @ (concat (map render ps) @ CHR '']'' # rest)) buf =
        and_then (processBuffer L (RANGE # st) buf)
          (emit (openNode range_escape)
             (run L (range_escape # RANGE # st) (Some c) (concat (map render ps) @ CHR '']'' # rest) [backslash, c]))"
      by (rule run_begin_here[OF fr]) simp
    with leaf ih Escaped show ?thesis
      by (simp add: processBuffer_def and_then_def emit_def openNode_def range_escape_def split: sum.splits)
  qed
qed

lemma top_bracket:
  "first_rule (matcher (antlrLanguage hljs_lib) []) p (''['' @ s) = Some (Begin RANGE, Some CHR ''['', s)"
  by (simp add: matcher_def table_defs class_defs split: option.splits)

lemma span_text_range_events:
  "span_text 0 (range_events buf ps @ tail) = buf @ concat (map render ps) @ '']''"
proof (induction ps arbitrary: buf)
  case Nil
  then show ?case by simp
next
  case (Cons x ps)
  then show ?case by (cases x) (simp_all add: span_text_addText)
qed

lemma spans_range_events:
  "spans (range_events buf ps @ tail) =
     replicate (length (filter (\<lambda>x. x = Plain CHR ''-'') ps)) (''operator'', ''-'') @ spans tail"
proof (induction ps arbitrary: buf)
  case Nil
  then show ?case by simp
next
  case (Cons x ps)
  then show ?case by (cases x) (simp_all add: spans_addText)
qed

text \<open>
  Claim C5. When the loop, in the language's own mode, stands at \<^verbatim>\<open>[\<close> followed by
  pieces and \<^verbatim>\<open>]\<close>, it opens a \<^verbatim>\<open>string\<close> node for the range; every plain hyphen
  among the pieces becomes an \<^verbatim>\<open>operator\<close> node of its own, and a character after a
  backslash (a hyphen too) is added as text. So the output for an input that begins with
  the range begins with these calls. The nodes of the range are the range itself and one
  operator node per plain hyphen.
\<close>

theorem range_hyphen_operator:
  assumes "\<forall>x \<in> set ps. range_piece x"
  shows "run (antlrLanguage hljs_lib) [] p (CHR ''['' # concat (map render ps) @ CHR '']'' # rest) buf =
           and_then (processBuffer (antlrLanguage hljs_lib) [] buf)
             (emit (OpenNode ''string'' # range_events ''['' ps)
                (run (antlrLanguage hljs_lib) [] (Some CHR '']'') rest []))
       \<and> (\<exists>evs. highlight (antlrLanguage hljs_lib) (CHR ''['' # concat (map render ps) @ CHR '']'' # rest) =
                  Inr (OpenNode ''string'' # range_events ''['' ps @ evs))
       \<and> spans (OpenNode ''string'' # range_events ''['' ps) =
           (''string'', CHR ''['' # concat (map render ps) @ '']'')
           # replicate (length (filter (\<lambda>x. x = Plain CHR ''-'') ps)) (''operator'', ''-'')"
proof -
  let ?L = "antlrLanguage hljs_lib"
  have main: "run ?L [] p0 (CHR ''['' # concat (map render ps) @ CHR '']'' # rest) b0 =
           and_then (processBuffer ?L [] b0)
             (emit (OpenNode ''string'' # range_events ''['' ps) (run ?L [] (Some CHR '']'') rest []))" for p0 b0
  proof -
    have "run ?L [] p0 (''['' @ (concat (map render ps) @ CHR '']'' # rest)) b0 =
        and_then (processBuffer ?L [] b0)
          (emit (openNode RANGE) (run ?L [RANGE] (Some CHR ''['') (concat (map render ps) @ CHR '']'' # rest) ''[''))"
      by (rule run_begin_here[OF top_bracket]) simp
    with range_body[OF assms, of ?L "[]" "Some CHR ''[''" rest "''[''"] show ?thesis
      by (simp add: openNode_def RANGE_def emit_def split: sum.splits)
  qed
  from highlight_begins[OF main[of None "[]"]]
  have hl: "\<exists>evs. highlight ?L (CHR ''['' # concat (map render ps) @ CHR '']'' # rest) =
                  Inr (OpenNode ''string'' # range_events ''['' ps @ evs)" by simp
  have sp: "spans (OpenNode ''string'' # range_events ''['' ps) =
           (''string'', CHR ''['' # concat (map render ps) @ '']'')
           # replicate (length (filter (\<lambda>x. x = Plain CHR ''-'') ps)) (''operator'', ''-'')"
    using spans_range_events[of "''[''" ps "[]"] span_text_range_events[of "''[''" ps "[]"]
    by simp
  from main[of p buf] hl sp show ?thesis by blast
qed

text \<open>The theorem at \<^verbatim>\<open>[a-z\-0]\<close> followed by \<^verbatim>\<open>+\<close>.\<close>

theorem range_hyphen_operator_witness:
  "run (antlrLanguage hljs_lib) [] None (CHR ''['' # concat (map render a_to_z) @ CHR '']'' # ''+'') [] =
      and_then (processBuffer (antlrLanguage hljs_lib) [] [])
        (emit [OpenNode ''string'', AddText ''[a'', OpenNode ''operator'', AddText ''-'', CloseNode, Score 1,
               AddText ''z'', AddText [backslash, CHR ''-''], Score 1, AddText ''0]'', CloseNode, Score 1]
           (run (antlrLanguage hljs_lib) [] (Some CHR '']'') ''+'' []))
   \<and> spans (OpenNode ''string'' # range_events ''['' a_to_z) =
       [(''string'', CHR ''['' # concat (map render a_to_z) @ '']''), (''operator'', ''-'')]"
  using range_hyphen_operator[of a_to_z None "''+''" "[]"]
  by (simp add: a_to_z_def addText_def line_terminator_def)

section \<open>C6: the earlier rule wins\<close>

text \<open>
  Claim C6. Whenever the loop, in the language's own mode, finds its next match, the rule
  applied is a rule of the compiled \<^verbatim>\<open>contains\<close> list that matches at that position,
  and no rule before it in the list matches there; the node opened is that rule's.
\<close>

theorem earlier_rule_wins:
  assumes "exec (matcher (antlrLanguage h) []) p s = Some (pre, t, lexeme, p', s')"
  shows "\<exists>i < length (concat (map expand (contains (antlrLanguage h)))).
           t = Begin (concat (map expand (contains (antlrLanguage h))) ! i)
         \<and> matches (beginRe (concat (map expand (contains (antlrLanguage h))) ! i))
                    (prev_after p pre) (lexeme @ s') \<noteq> []
         \<and> (\<forall>j < i. matches (beginRe (concat (map expand (contains (antlrLanguage h))) ! j))
                    (prev_after p pre) (lexeme @ s') = [])
         \<and> (lexeme \<noteq> [] \<longrightarrow>
              run (antlrLanguage h) [] p s buf =
                and_then (processBuffer (antlrLanguage h) [] (buf @ pre))
                  (emit (openNode (concat (map expand (contains (antlrLanguage h))) ! i))
                     (run (antlrLanguage h) [concat (map expand (contains (antlrLanguage h))) ! i] p' s' lexeme)))"
proof -
  let ?L = "antlrLanguage h"
  let ?rules = "concat (map expand (contains ?L))"
  from exec_sound[OF assms] obtain i where i: "i < length (matcher ?L [])"
    "snd (matcher ?L [] ! i) = t"
    "matches (fst (matcher ?L [] ! i)) (prev_after p pre) (lexeme @ s') \<noteq> []"
    "\<forall>j < i. matches (fst (matcher ?L [] ! j)) (prev_after p pre) (lexeme @ s') = []"
    by blast
  from i(1) have il: "i < length ?rules" by (simp add: top_matcher)
  from i(2) il have t: "t = Begin (?rules ! i)" by (simp add: top_matcher)
  from i(3) il have m: "matches (beginRe (?rules ! i)) (prev_after p pre) (lexeme @ s') \<noteq> []"
    by (simp add: top_matcher)
  from i(4) il have e: "\<forall>j < i. matches (beginRe (?rules ! j)) (prev_after p pre) (lexeme @ s') = []"
    by (simp add: top_matcher)
  have r: "lexeme \<noteq> [] \<longrightarrow> run ?L [] p s buf =
      and_then (processBuffer ?L [] (buf @ pre)) (emit (openNode (?rules ! i)) (run ?L [?rules ! i] p' s' lexeme))"
    using run_begin[OF assms[unfolded t]] by blast
  from il t m e r show ?thesis by blast
qed

lemma exec_grammar_Foo:
  "exec (matcher (antlrLanguage hljs_lib) []) None ''grammar Foo'' =
     Some ([], Begin GRAMMAR_TYPE, ''grammar'', Some CHR ''r'', '' Foo'')"
  by code_simp

text \<open>
  The theorem at \<^verbatim>\<open>grammar Foo\<close>: \<^verbatim>\<open>GRAMMAR_TYPE\<close> (third in the list) and
  \<^verbatim>\<open>RULE_NAME\<close> (seventh) both match at the first character, and the node opened is
  \<^verbatim>\<open>GRAMMAR_TYPE\<close>'s.
\<close>

theorem earlier_rule_wins_witness:
  "exec (matcher (antlrLanguage hljs_lib) []) None ''grammar Foo'' =
     Some ([], Begin GRAMMAR_TYPE, ''grammar'', Some CHR ''r'', '' Foo'')
   \<and> concat (map expand (contains (antlrLanguage hljs_lib))) ! 2 = GRAMMAR_TYPE
   \<and> concat (map expand (contains (antlrLanguage hljs_lib))) ! 6 = RULE_NAME
   \<and> matches (beginRe RULE_NAME) None ''grammar Foo'' \<noteq> []
   \<and> (\<exists>i. Begin GRAMMAR_TYPE = Begin (concat (map expand (contains (antlrLanguage hljs_lib))) ! i)
        \<and> run (antlrLanguage hljs_lib) [] None ''grammar Foo'' [] =
            and_then (processBuffer (antlrLanguage hljs_lib) [] [])
              (emit (openNode GRAMMAR_TYPE)
                 (run (antlrLanguage hljs_lib) [GRAMMAR_TYPE] (Some CHR ''r'') '' Foo'' ''grammar'')))"
proof -
  have a: "concat (map expand (contains (antlrLanguage hljs_lib))) ! 2 = GRAMMAR_TYPE"
    by (simp add: antlrLanguage_def expand_STRING) (simp add: table_defs)
  have b: "concat (map expand (contains (antlrLanguage hljs_lib))) ! 6 = RULE_NAME"
    by (simp add: antlrLanguage_def expand_STRING) (simp add: table_defs)
  have c: "matches (beginRe RULE_NAME) None ''grammar Foo'' \<noteq> []"
    by code_simp
  from earlier_rule_wins[OF exec_grammar_Foo, of "[]"] have
    d: "\<exists>i. Begin GRAMMAR_TYPE = Begin (concat (map expand (contains (antlrLanguage hljs_lib))) ! i)
        \<and> run (antlrLanguage hljs_lib) [] None ''grammar Foo'' [] =
            and_then (processBuffer (antlrLanguage hljs_lib) [] [])
              (emit (openNode GRAMMAR_TYPE)
                 (run (antlrLanguage hljs_lib) [GRAMMAR_TYPE] (Some CHR ''r'') '' Foo'' ''grammar''))"
    by fastforce
  from exec_grammar_Foo a b c d show ?thesis by blast
qed

section \<open>C7: relevance does not change the spans\<close>

lemma tokens_emit: "tokens (emit es r) = emit (filter (\<lambda>e. \<not> is_score e) es) (tokens r)"
  by (simp add: tokens_def emit_def split: sum.splits)

lemma tokens_and_then: "tokens (and_then a r) = and_then (tokens a) (tokens r)"
  by (simp add: tokens_def and_then_def emit_def split: sum.splits)

lemma strip_eq_Self: "strip_relevance m = Self \<longleftrightarrow> m = Self"
  by (cases m) auto

lemma strip_inherit:
  "strip_relevance (inherit a b) = inherit (strip_relevance a) (strip_relevance b)"
  by (cases a; cases b) (auto split: option.splits)

lemma strip_expand: "expand (strip_relevance m) = map strip_relevance (expand m)"
  by (cases m) (auto simp: strip_inherit)

lemma strip_children: "children (strip_relevance m) = map strip_relevance (children m)"
proof (cases m)
  case (Mode c b e cs r rel vs)
  have hk: "expand (case strip_relevance k of Self \<Rightarrow> Mode c b e (map strip_relevance cs) r None (map strip_relevance vs) | _ \<Rightarrow> strip_relevance k)
          = map strip_relevance (expand (case k of Self \<Rightarrow> Mode c b e cs r rel vs | _ \<Rightarrow> k))" for k
    using strip_expand[of k] strip_expand[of "Mode c b e cs r rel vs"] by (cases k) auto
  show ?thesis unfolding Mode by (simp add: map_concat comp_def hk)
next
  case Self
  then show ?thesis by simp
qed

lemma strip_fields:
  "beginRe (strip_relevance m) = beginRe m"
  "endRe (strip_relevance m) = endRe m"
  "scope (strip_relevance m) = scope m"
  "returns_end (strip_relevance m) = returns_end m"
  by (cases m; simp)+

lemma strip_nodes:
  "openNode (strip_relevance m) = openNode m"
  "closeNode (strip_relevance m) = closeNode m"
  "endOfMode (strip_relevance m) s = endOfMode m s"
  by (simp_all add: openNode_def closeNode_def endOfMode_def strip_fields)

lemma strip_matcher:
  "matcher (strip_language L) (map strip_relevance st) = map (\<lambda>r. (fst r, strip_tag (snd r))) (matcher L st)"
  by (cases st)
     (simp_all add: matcher_def strip_language_def strip_children strip_fields strip_expand
        map_concat comp_def)

lemma first_rule_map:
  "first_rule (map (\<lambda>r. (fst r, f (snd r))) rs) p s =
     map_option (\<lambda>x. (f (fst x), snd x)) (first_rule rs p s)"
  by (induction rs) (auto split: list.splits)

lemma exec_map:
  "exec (map (\<lambda>r. (fst r, f (snd r))) rs) p s =
     map_option (\<lambda>x. (fst x, f (fst (snd x)), snd (snd x))) (exec rs p s)"
  by (induction s arbitrary: p) (auto simp: first_rule_map split: option.splits)

lemma strip_keywords:
  "processKeywords (strip_language L) p buf acc = processKeywords L p buf acc"
proof (induction L p buf acc rule: processKeywords.induct)
  case (1 L p buf acc)
  have k: "lang_keywords (strip_language L) = lang_keywords L"
          "keyword_list (strip_language L) = keyword_list L"
    by (simp_all add: strip_language_def keyword_list_def)
  show ?case
  proof (cases "exec [(pattern (lang_keywords L), End)] p buf")
    case None
    then show ?thesis by (simp add: processKeywords.simps[of "strip_language L"] processKeywords.simps[of L] k)
  next
    case (Some x)
    obtain pre t word p' rest where x: "x = (pre, t, word, p', rest)" by (cases x) auto
    show ?thesis
    proof (cases "word = []")
      case True
      with Some x show ?thesis
        by (simp add: processKeywords.simps[of "strip_language L"] processKeywords.simps[of L] k)
    next
      case False
      show ?thesis
      proof (cases "word \<in> set (keyword_list L)")
        case True
        from "1.IH"(1)[OF Some[unfolded x] refl refl refl refl False True] Some x False True
        show ?thesis
          by (simp add: processKeywords.simps[of "strip_language L" p buf] processKeywords.simps[of L p buf] k)
      next
        case nk: False
        from "1.IH"(2)[OF Some[unfolded x] refl refl refl refl False nk] Some x False nk
        show ?thesis
          by (simp add: processKeywords.simps[of "strip_language L" p buf] processKeywords.simps[of L p buf] k)
      qed
    qed
  qed
qed

lemma strip_processBuffer:
  "processBuffer (strip_language L) (map strip_relevance st) buf = processBuffer L st buf"
  by (cases st) (simp_all add: processBuffer_def strip_keywords)

lemma strip_closeAll:
  "closeNode \<circ> strip_relevance = closeNode"
  by (rule ext) (simp add: strip_nodes)

lemma run_strip:
  "tokens (run (strip_language L) (map strip_relevance st) p s buf) = tokens (run L st p s buf)"
proof (induction L st p s buf rule: run_induct2)
  case (step L st p s buf)
  let ?L = "strip_language L" and ?st = "map strip_relevance st"
  have ex: "exec (matcher ?L ?st) p s =
     map_option (\<lambda>x. (fst x, strip_tag (fst (snd x)), snd (snd x))) (exec (matcher L st) p s)"
    by (simp add: strip_matcher exec_map)
  show ?case
  proof (cases "exec (matcher L st) p s")
    case None
    with ex have "exec (matcher ?L ?st) p s = None" by simp
    from run_eof[OF this] run_eof[OF None] show ?thesis
      by (simp add: strip_processBuffer strip_closeAll)
  next
    case (Some x)
    obtain pre t lexeme p' s' where x: "x = (pre, t, lexeme, p', s')" by (cases x) auto
    show ?thesis
    proof (cases t)
      case (Begin m)
      from Some x Begin have e: "exec (matcher L st) p s = Some (pre, Begin m, lexeme, p', s')" by simp
      with ex have e': "exec (matcher ?L ?st) p s = Some (pre, Begin (strip_relevance m), lexeme, p', s')"
        by simp
      show ?thesis
      proof (cases "lexeme = []")
        case True
        with e e' show ?thesis
          by (simp add: run.simps[of ?L ?st p s] run.simps[of L st p s])
      next
        case False
        from step(1)[OF e False]
        have "tokens (run ?L (strip_relevance m # ?st) p' s' lexeme) = tokens (run L (m # st) p' s' lexeme)"
          by simp
        with run_begin[OF e False] run_begin[OF e' False] show ?thesis
          by (simp add: tokens_and_then tokens_emit strip_processBuffer strip_nodes)
      qed
    next
      case End
      from Some x End have e: "exec (matcher L st) p s = Some (pre, End, lexeme, p', s')" by simp
      with ex have e': "exec (matcher ?L ?st) p s = Some (pre, End, lexeme, p', s')"
        by simp
      show ?thesis
      proof (cases st)
        case Nil
        with e e' show ?thesis
          by (simp add: run.simps[of ?L "[]" p s] run.simps[of L "[]" p s])
      next
        case (Cons cur parent)
        note e1 = e[unfolded Cons] and e1' = e'[unfolded Cons list.map]
        show ?thesis
        proof (cases "endOfMode cur (lexeme @ s')")
          case eom: True
          then have eom': "endOfMode (strip_relevance cur) (lexeme @ s')" by (simp add: strip_nodes)
          show ?thesis
          proof (cases "returns_end cur")
            case True
            then have re': "returns_end (strip_relevance cur)" by (simp add: strip_fields)
            from step(2)[OF e Cons eom True] run_return_end[OF e1 eom True] run_return_end[OF e1' eom' re']
            show ?thesis unfolding Cons list.map
              using strip_processBuffer[of L "cur # parent"]
              by (simp add: tokens_and_then tokens_emit strip_nodes)
          next
            case False
            then have re': "\<not> returns_end (strip_relevance cur)" by (simp add: strip_fields)
            from step(3)[OF e Cons eom False] run_end[OF e1 eom False] run_end[OF e1' eom' re']
            show ?thesis unfolding Cons list.map
              using strip_processBuffer[of L "cur # parent"]
              by (simp add: tokens_and_then tokens_emit strip_nodes)
          qed
        next
          case neom: False
          then have neom': "\<not> endOfMode (strip_relevance cur) (lexeme @ s')" by (simp add: strip_nodes)
          show ?thesis
          proof (cases "lexeme = []")
            case True
            with e1 e1' neom neom' show ?thesis unfolding Cons list.map
              by (simp add: run.simps[of ?L "strip_relevance cur # map strip_relevance parent" p s]
                    run.simps[of L "cur # parent" p s])
          next
            case False
            from step(4)[OF e Cons neom False] run_skip_end[OF e1 neom False] run_skip_end[OF e1' neom' False]
            show ?thesis unfolding Cons list.map by simp
          qed
        qed
      qed
    qed
  qed
qed

text \<open>
  Claim C7. Two languages that differ only in the relevance values of their rules give
  the same sequence of calls on the output tree, for every input.
\<close>

theorem relevance_does_not_change_tokens:
  assumes "same_but_relevance L L'"
  shows "tokens (highlight L code) = tokens (highlight L' code)"
proof -
  have "tokens (highlight L code) = tokens (run (strip_language L) (map strip_relevance []) None code [])"
    unfolding highlight_def by (rule run_strip[symmetric])
  also have "\<dots> = tokens (run (strip_language L') (map strip_relevance []) None code [])"
    using assms by (simp add: same_but_relevance_def)
  also have "\<dots> = tokens (highlight L' code)"
    unfolding highlight_def by (rule run_strip)
  finally show ?thesis .
qed

lemma antlr_flat_same: "same_but_relevance (antlrLanguage hljs_lib) antlr_flat"
  by (simp add: same_but_relevance_def strip_language_def antlr_flat_def antlrLanguage_def)
     (simp add: table_defs)

lemma rule_events: "highlight (antlrLanguage hljs_lib) ''r : T'' =
     Inr [OpenNode ''title.function'', AddText ''r'', CloseNode, Score 10, AddText '' '',
          OpenNode ''punctuation'', AddText '':'', CloseNode, Score 1, AddText '' '',
          OpenNode ''title.class'', AddText ''T'', CloseNode, Score 8]"
  by code_simp

lemma rule_events_flat: "highlight antlr_flat ''r : T'' =
     Inr [OpenNode ''title.function'', AddText ''r'', CloseNode, Score 0, AddText '' '',
          OpenNode ''punctuation'', AddText '':'', CloseNode, Score 1, AddText '' '',
          OpenNode ''title.class'', AddText ''T'', CloseNode, Score 1]"
  by code_simp

text \<open>
  The theorem at the table and at the table with relevance 0 for \<^verbatim>\<open>RULE_NAME\<close> and the
  default for \<^verbatim>\<open>TOKEN_NAME\<close>: the relevance counter differs, the spans do not.
\<close>

theorem relevance_does_not_change_tokens_witness:
  "same_but_relevance (antlrLanguage hljs_lib) antlr_flat
   \<and> highlight (antlrLanguage hljs_lib) ''r : T'' \<noteq> highlight antlr_flat ''r : T''
   \<and> tokens (highlight (antlrLanguage hljs_lib) ''r : T'') = tokens (highlight antlr_flat ''r : T'')"
  using relevance_does_not_change_tokens[OF antlr_flat_same, of "''r : T''"] antlr_flat_same
  by (simp add: rule_events rule_events_flat)

section \<open>C8: the highlighting pass\<close>

lemma pass_marks:
  "highlightUnprocessedBlocks hl w = Inr w' \<Longrightarrow> el \<in> set (blocks w') \<Longrightarrow> \<not> unprocessed el"
  by (auto simp: highlightUnprocessedBlocks_def unprocessed_def setAttribute_def list_ex_iff
           split: option.splits if_splits)

lemma pass_keeps_global:
  "highlightUnprocessedBlocks hl w = Inr w' \<Longrightarrow> hljs_global w' = hljs_global w"
  by (auto simp: highlightUnprocessedBlocks_def split: option.splits if_splits)

lemma pass_on_marked:
  assumes "\<forall>el \<in> set (blocks w). \<not> unprocessed el"
  shows "highlightUnprocessedBlocks hl w = Inr w"
proof (cases "hljs_global w")
  case None
  with assms show ?thesis
    by (simp add: highlightUnprocessedBlocks_def list_ex_iff)
next
  case (Some h)
  from assms have "map (\<lambda>el. if unprocessed el then setAttribute ''data-highlighted'' ''true'' (hl h el) else el) (blocks w) = blocks w"
    by (induction "blocks w") (auto simp: map_idI)
  with Some show ?thesis
    by (simp add: highlightUnprocessedBlocks_def)
qed

text \<open>
  Claim C8. The highlighting pass is idempotent at the block level. After a pass that
  returns, every block carries the attribute \<^verbatim>\<open>data-highlighted\<close>; a block that
  carried it before the pass is left as it was; and a second pass (with any
  \<^verbatim>\<open>highlightElement\<close>) returns the page unchanged.
\<close>

theorem highlight_pass_idempotent:
  assumes "highlightUnprocessedBlocks hl w = Inr w'"
  shows "(\<forall>el \<in> set (blocks w'). \<not> unprocessed el)
       \<and> (\<forall>i < length (blocks w). \<not> unprocessed (blocks w ! i) \<longrightarrow> blocks w' ! i = blocks w ! i)
       \<and> highlightUnprocessedBlocks hl2 w' = Inr w'"
proof (intro conjI)
  show m: "\<forall>el \<in> set (blocks w'). \<not> unprocessed el"
    using pass_marks[OF assms] by blast
  show "\<forall>i < length (blocks w). \<not> unprocessed (blocks w ! i) \<longrightarrow> blocks w' ! i = blocks w ! i"
    using assms
    by (auto simp: highlightUnprocessedBlocks_def split: option.splits if_splits)
  show "highlightUnprocessedBlocks hl2 w' = Inr w'"
    using m by (rule pass_on_marked)
qed

lemma demo_pass: "highlightUnprocessedBlocks demo_hl demo_page = Inr demo_page_done"
  by (simp add: highlightUnprocessedBlocks_def demo_page_def demo_page_done_def demo_hl_def
      unprocessed_def setAttribute_def)

text \<open>The theorem at the example page: the first block is processed, the second kept.\<close>

theorem highlight_pass_idempotent_witness:
  "highlightUnprocessedBlocks demo_hl demo_page = Inr demo_page_done
   \<and> list_all (\<lambda>el. \<not> unprocessed el) (blocks demo_page_done)
   \<and> blocks demo_page_done ! 1 = blocks demo_page ! 1
   \<and> highlightUnprocessedBlocks demo_hl demo_page_done = Inr demo_page_done"
  using highlight_pass_idempotent[OF demo_pass, of demo_hl] demo_pass
  by (simp add: list_all_iff demo_page_def demo_page_done_def)

section \<open>C9: rule names only at the start of a line\<close>

lemma Seq_Bol_line_start: "matches (Seq Bol r) p s \<noteq> [] \<Longrightarrow> line_start p"
  by (auto simp: line_start_def split: option.splits if_splits)

lemma rule_name_begin_line_start:
  "matches (beginRe RULE_NAME) p s \<noteq> [] \<Longrightarrow> line_start p"
  unfolding RULE_NAME_def beginRe.simps option.case by (rule Seq_Bol_line_start)

text \<open>
  The character before a match is the last character of the text consumed so far, so the
  position of a node in the input is the text added to the output before it.
\<close>

lemma prev_after_append: "prev_after (prev_after p a) b = prev_after p (a @ b)"
  by (simp add: prev_after_def)

lemma prev_single: "\<exists>l. x # xs = l @ xs \<and> Some x = prev_after p l"
  by (rule exI[of _ "[x]"]) (simp add: prev_after_def)

lemma prev_empty: "\<exists>l. s = l @ s \<and> p = prev_after p l"
  by (rule exI[of _ "[]"]) (simp add: prev_after_def)

lemma matches_prev:
  "m \<in> set (matches r p s) \<Longrightarrow> \<exists>l. s = l @ snd m \<and> fst m = prev_after p l"
proof (induction r p s arbitrary: m rule: matches.induct)
  case (1 p s)
  then have "m = (p, s)" by simp
  then show ?case using prev_empty[of s p] by simp
next
  case (2 c p s)
  then obtain x xs where "s = x # xs" "m = (Some x, xs)" by (cases s) (auto split: if_splits)
  then show ?case using prev_single[of x xs p] by simp
next
  case (3 rs p s)
  then obtain x xs where "s = x # xs" "m = (Some x, xs)" by (cases s) (auto split: if_splits)
  then show ?case using prev_single[of x xs p] by simp
next
  case (4 p s)
  then obtain x xs where "s = x # xs" "m = (Some x, xs)" by (cases s) (auto split: if_splits)
  then show ?case using prev_single[of x xs p] by simp
next
  case (5 p s)
  then have "m = (p, s)" by (cases p) (auto split: if_splits)
  then show ?case using prev_empty[of s p] by simp
next
  case (6 p s)
  then have "m = (p, s)" by (cases s) (auto split: if_splits)
  then show ?case using prev_empty[of s p] by simp
next
  case (7 p s)
  then have "m = (p, s)" by (auto split: if_splits)
  then show ?case using prev_empty[of s p] by simp
next
  case (8 p s)
  then have "m = (p, s)" by (auto split: if_splits)
  then show ?case using prev_empty[of s p] by simp
next
  case (9 a b p s)
  from "9.prems" obtain m1 where m1: "m1 \<in> set (matches a p s)" and m: "m \<in> set (matches b (fst m1) (snd m1))"
    by auto
  from "9.IH"(1)[OF m1] obtain l1 where l1: "s = l1 @ snd m1" "fst m1 = prev_after p l1" by blast
  from "9.IH"(2)[OF m1 m] obtain l2 where l2: "snd m1 = l2 @ snd m" "fst m = prev_after (fst m1) l2" by blast
  from l1 l2 have "s = (l1 @ l2) @ snd m \<and> fst m = prev_after p (l1 @ l2)"
    by (simp add: prev_after_append)
  then show ?case by blast
next
  case (10 a b p s) then show ?case by (cases m) fastforce
next
  case (11 a p s)
  show ?case
  proof (cases "m = (p, s)")
    case True
    then show ?thesis using prev_empty[of s p] by simp
  next
    case False
    have "matches (Star a) p s = concat (map (\<lambda>m. if length (snd m) < length s then matches (Star a) (fst m) (snd m) else [])
                 (matches a p s)) @ [(p, s)]" by (rule matches.simps)
    with "11.prems" False obtain m1 where m1: "m1 \<in> set (matches a p s)"
      and lt: "length (snd m1) < length s"
      and m: "m \<in> set (matches (Star a) (fst m1) (snd m1))"
      by (auto simp del: matches.simps split: if_splits)
    from "11.IH"(1)[OF m1] obtain l1 where l1: "s = l1 @ snd m1" "fst m1 = prev_after p l1" by blast
    from "11.IH"(2)[OF m1 lt m] obtain l2 where l2: "snd m1 = l2 @ snd m" "fst m = prev_after (fst m1) l2" by blast
    from l1 l2 have "s = (l1 @ l2) @ snd m \<and> fst m = prev_after p (l1 @ l2)"
      by (simp add: prev_after_append)
    then show ?thesis by blast
  qed
qed

lemma exec_prev:
  assumes "exec rs p s = Some (pre, t, lexeme, p', s')"
  shows "p' = prev_after p (pre @ lexeme)"
proof -
  from exec_sound[OF assms] obtain i where
    m: "matches (fst (rs ! i)) (prev_after p pre) (lexeme @ s') \<noteq> []"
    and h: "hd (matches (fst (rs ! i)) (prev_after p pre) (lexeme @ s')) = (p', s')" by blast
  then have "(p', s') \<in> set (matches (fst (rs ! i)) (prev_after p pre) (lexeme @ s'))"
    by (metis list.set_sel(1))
  from matches_prev[OF this] obtain l where "lexeme @ s' = l @ s'" "p' = prev_after (prev_after p pre) l"
    by auto
  then show ?thesis by (simp add: prev_after_append)
qed

lemma nodes_append:
  "rule_nodes_at_line_start T (a @ b) =
     (rule_nodes_at_line_start T a \<and> rule_nodes_at_line_start (T @ texts a) b)"
  by (induction T a rule: rule_nodes_at_line_start.induct) simp_all

lemma nodes_addText: "rule_nodes_at_line_start T (addText b)"
  by (simp add: addText_def)

lemma nodes_keywords:
  "processKeywords L p buf acc = Inr es \<Longrightarrow> rule_nodes_at_line_start T es"
proof (induction L p buf acc arbitrary: es T rule: processKeywords.induct)
  case (1 L p buf acc)
  show ?case
  proof (cases "exec [(pattern (lang_keywords L), End)] p buf")
    case None
    with "1.prems" have "es = addText (acc @ buf)" by (simp add: processKeywords.simps[of L p buf])
    then show ?thesis by (simp only: nodes_addText)
  next
    case (Some x)
    obtain pre t word p' rest where x: "x = (pre, t, word, p', rest)" by (cases x) auto
    show ?thesis
    proof (cases "word = []")
      case True
      with "1.prems" Some x show ?thesis by (simp add: processKeywords.simps[of L p buf])
    next
      case w: False
      show ?thesis
      proof (cases "word \<in> set (keyword_list L)")
        case True
        with "1.prems" Some x w obtain es' where es': "processKeywords L p' rest [] = Inr es'"
          and es: "es = addText (acc @ pre) @ [OpenNode ''keyword'', AddText word, CloseNode] @ es'"
          by (auto simp: processKeywords.simps[of L p buf] emit_def split: sum.splits)
        from "1.IH"(1)[OF Some[unfolded x] refl refl refl refl w True es'] es show ?thesis
          by (simp add: nodes_append nodes_addText)
      next
        case False
        with "1.prems" Some x w have "processKeywords L p' rest (acc @ pre @ word) = Inr es"
          by (simp add: processKeywords.simps[of L p buf])
        from "1.IH"(2)[OF Some[unfolded x] refl refl refl refl w False this] show ?thesis .
      qed
    qed
  qed
qed

lemma nodes_buffer: "processBuffer L st buf = Inr es \<Longrightarrow> rule_nodes_at_line_start T es"
  by (cases st) (auto simp: processBuffer_def nodes_addText dest: nodes_keywords)

lemma nodes_closeNode: "rule_nodes_at_line_start T (closeNode m @ [Score n])"
  by (simp add: closeNode_def split: option.splits)

lemma nodes_closeAll: "rule_nodes_at_line_start T (concat (map closeNode st))"
  by (induction st) (simp_all add: nodes_append texts_closeNode closeNode_def split: option.splits)

lemma antlr_rule_scope:
  "m \<in> set antlr_modes \<Longrightarrow> scope m = Some ''title.function'' \<Longrightarrow> m = RULE_NAME"
  unfolding antlr_modes_def
  by (auto simp: table_defs quoted_def inner_block_def option_key_def header_key_def
        range_escape_def range_hyphen_def)

lemma run_nodes:
  "run L st p s buf = Inr es \<Longrightarrow> L = antlrLanguage hljs_lib \<Longrightarrow> set st \<subseteq> set antlr_modes \<Longrightarrow>
   p = prev_after None (T @ buf) \<Longrightarrow> rule_nodes_at_line_start T es"
proof (induction L st p s buf arbitrary: es T rule: run_induct2)
  case (step L st p s buf)
  note L = step.prems(2) and st = step.prems(3) and p = step.prems(4)
  show ?case
  proof (cases "exec (matcher L st) p s")
    case None
    from step.prems(1) run_eof[OF None, of buf] obtain x where
      "processBuffer L st (buf @ s) = Inr x" "es = x @ concat (map closeNode st)"
      by (auto simp: and_then_def emit_def split: sum.splits)
    with nodes_buffer[of L st "buf @ s" x T] show ?thesis by (simp add: nodes_append nodes_closeAll)
  next
    case (Some x)
    obtain pre t lexeme p' s' where x: "x = (pre, t, lexeme, p', s')" by (cases x) auto
    note e = Some[unfolded x]
    from exec_prev[OF e] p have p': "p' = prev_after None (T @ buf @ pre @ lexeme)"
      by (simp add: prev_after_append)
    from p have pp: "prev_after p pre = prev_after None (T @ buf @ pre)"
      by (simp add: prev_after_append)
    from exec_sound[OF e] obtain i where i: "i < length (matcher L st)" "snd (matcher L st ! i) = t"
      and m: "matches (fst (matcher L st ! i)) (prev_after p pre) (lexeme @ s') \<noteq> []"
      by blast
    show ?thesis
    proof (cases t)
      case (Begin k)
      from matcher_begin_member[OF i(1) i(2)[unfolded Begin]] st antlr_top_modes antlr_modes_closed
      have k: "k \<in> set antlr_modes" unfolding L by (cases st) auto
      show ?thesis
      proof (cases "lexeme = []")
        case True
        with step.prems(1) e Begin show ?thesis by (simp add: run.simps[of L st p s])
      next
        case False
        from step.prems(1) run_begin[OF e[unfolded Begin] False, of buf]
        have "and_then (processBuffer L st (buf @ pre)) (emit (openNode k) (run L (k # st) p' s' lexeme)) = Inr es"
          by simp
        from and_then_Inr[OF this] obtain b y where b: "processBuffer L st (buf @ pre) = Inr b"
          and y: "run L (k # st) p' s' lexeme = Inr y" and es: "es = b @ openNode k @ y" by blast
        from k st have kst: "set (k # st) \<subseteq> set antlr_modes" by simp
        from p' have "p' = prev_after None ((T @ buf @ pre) @ lexeme)" by simp
        from step.IH(1)[OF e[unfolded Begin] False y L kst this]
        have ny: "rule_nodes_at_line_start (T @ buf @ pre) y" .
        have no: "rule_nodes_at_line_start (T @ buf @ pre) (openNode k)"
        proof (cases "scope k = Some ''title.function''")
          case True
          from antlr_rule_scope[OF k True] matcher_entry[OF i(1) i(2)[unfolded Begin]] m
          have "line_start (prev_after p pre)" by (simp add: rule_name_begin_line_start)
          with pp True show ?thesis by (simp add: openNode_def)
        next
          case False
          then show ?thesis by (simp add: openNode_def split: option.splits)
        qed
        from nodes_buffer[OF b, of T] buffer_texts[OF b] no ny es show ?thesis
          by (simp add: nodes_append texts_openNode)
      qed
    next
      case End
      show ?thesis
      proof (cases st)
        case Nil
        with step.prems(1) e End show ?thesis by (simp add: run.simps[of L "[]" p s])
      next
        case (Cons cur parent)
        note e1 = e[unfolded End Cons]
        from st Cons have par: "set parent \<subseteq> set antlr_modes" by simp
        show ?thesis
        proof (cases "endOfMode cur (lexeme @ s')")
          case eom: True
          show ?thesis
          proof (cases "returns_end cur")
            case True
            from step.prems(1) run_return_end[OF e1 eom True, of buf]
            have "and_then (processBuffer L (cur # parent) (buf @ pre))
                (emit (closeNode cur @ [Score (mode_relevance cur)])
                   (run L parent (prev_after p pre) (lexeme @ s') [])) = Inr es"
              unfolding Cons by simp
            from and_then_Inr[OF this] obtain b y where b: "processBuffer L (cur # parent) (buf @ pre) = Inr b"
              and y: "run L parent (prev_after p pre) (lexeme @ s') [] = Inr y"
              and es: "es = b @ (closeNode cur @ [Score (mode_relevance cur)]) @ y" by blast
            from pp have "prev_after p pre = prev_after None ((T @ buf @ pre) @ [])" by simp
            from step.IH(2)[OF e[unfolded End] Cons eom True y L par this]
            have "rule_nodes_at_line_start (T @ buf @ pre) y" .
            with nodes_buffer[OF b, of T] buffer_texts[OF b] es nodes_closeNode show ?thesis
              by (simp add: nodes_append texts_append texts_closeNode)
          next
            case False
            from step.prems(1) run_end[OF e1 eom False, of buf]
            have "and_then (processBuffer L (cur # parent) (buf @ pre @ lexeme))
                (emit (closeNode cur @ [Score (mode_relevance cur)]) (run L parent p' s' [])) = Inr es"
              unfolding Cons by simp
            from and_then_Inr[OF this] obtain b y where
              b: "processBuffer L (cur # parent) (buf @ pre @ lexeme) = Inr b"
              and y: "run L parent p' s' [] = Inr y"
              and es: "es = b @ (closeNode cur @ [Score (mode_relevance cur)]) @ y" by blast
            from p' have "p' = prev_after None ((T @ buf @ pre @ lexeme) @ [])" by simp
            from step.IH(3)[OF e[unfolded End] Cons eom False y L par this]
            have "rule_nodes_at_line_start (T @ buf @ pre @ lexeme) y" .
            with nodes_buffer[OF b, of T] buffer_texts[OF b] es nodes_closeNode show ?thesis
              by (simp add: nodes_append texts_append texts_closeNode)
          qed
        next
          case neom: False
          show ?thesis
          proof (cases "lexeme = []")
            case True
            with step.prems(1) e1 neom show ?thesis unfolding Cons
              by (simp add: run.simps[of L "cur # parent" p s])
          next
            case False
            from step.prems(1) run_skip_end[OF e1 neom False, of buf]
            have r: "run L st p' s' (buf @ pre @ lexeme) = Inr es" unfolding Cons by simp
            from p' have "p' = prev_after None (T @ (buf @ pre @ lexeme))" by simp
            from step.IH(4)[OF e[unfolded End] Cons neom False r L st this] show ?thesis .
          qed
        qed
      qed
    qed
  qed
qed

lemma highlight_nodes:
  "\<exists>es. highlight (antlrLanguage hljs_lib) code = Inr es \<and> rule_nodes_at_line_start [] es"
proof -
  from highlight_total obtain es where es: "highlight (antlrLanguage hljs_lib) code = Inr es" by blast
  then have "rule_nodes_at_line_start [] es"
    unfolding highlight_def by (rule run_nodes) (simp_all add: prev_after_def)
  with es show ?thesis by blast
qed

text \<open>
  Claim C9. Whenever the loop (in any mode) finds \<^verbatim>\<open>RULE_NAME\<close> as its next match,
  the match begins at the start of a line. And in the output for any input, every node
  of class \<^verbatim>\<open>title.function\<close> is opened at the start of a line: an identifier that
  does not begin at a line start is never classified as a rule reference.
\<close>

theorem rule_name_only_at_line_start:
  "(exec (matcher (antlrLanguage h) st) p s = Some (pre, Begin RULE_NAME, lexeme, p', s')
      \<longrightarrow> line_start (prev_after p pre))
   \<and> (\<exists>es. highlight (antlrLanguage hljs_lib) code = Inr es \<and> rule_nodes_at_line_start [] es)"
proof (intro conjI impI)
  assume a: "exec (matcher (antlrLanguage h) st) p s = Some (pre, Begin RULE_NAME, lexeme, p', s')"
  from exec_sound[OF a] obtain i where i: "i < length (matcher (antlrLanguage h) st)"
    "snd (matcher (antlrLanguage h) st ! i) = Begin RULE_NAME"
    "matches (fst (matcher (antlrLanguage h) st ! i)) (prev_after p pre) (lexeme @ s') \<noteq> []"
    by blast
  from matcher_entry[OF i(1,2)] i(3) show "line_start (prev_after p pre)"
    by (simp add: rule_name_begin_line_start)
next
  show "\<exists>es. highlight (antlrLanguage hljs_lib) code = Inr es \<and> rule_nodes_at_line_start [] es"
    by (rule highlight_nodes)
qed

lemma exec_rule_colon:
  "exec (matcher (antlrLanguage hljs_lib) []) None ''rule : X'' =
     Some ([], Begin RULE_NAME, ''rule'', Some CHR ''e'', '' : X'')"
  by code_simp

lemma mid_line_events:
  "highlight (antlrLanguage hljs_lib) ''a : b'' =
     Inr [OpenNode ''title.function'', AddText ''a'', CloseNode, Score 10, AddText '' '',
          OpenNode ''punctuation'', AddText '':'', CloseNode, Score 1, AddText '' b'']"
  by code_simp

text \<open>
  The theorem at \<^verbatim>\<open>rule : X\<close> at the start of the input, and at \<^verbatim>\<open>a : b\<close>, where
  \<^verbatim>\<open>a\<close> is a rule name and \<^verbatim>\<open>b\<close> is left as text.
\<close>

theorem rule_name_only_at_line_start_witness:
  "exec (matcher (antlrLanguage hljs_lib) []) None ''rule : X'' =
     Some ([], Begin RULE_NAME, ''rule'', Some CHR ''e'', '' : X'')
   \<and> line_start (prev_after None [])
   \<and> highlight (antlrLanguage hljs_lib) ''a : b'' =
     Inr [OpenNode ''title.function'', AddText ''a'', CloseNode, Score 10, AddText '' '',
          OpenNode ''punctuation'', AddText '':'', CloseNode, Score 1, AddText '' b'']
   \<and> rule_nodes_at_line_start []
        [OpenNode ''title.function'', AddText ''a'', CloseNode, Score 10, AddText '' '',
          OpenNode ''punctuation'', AddText '':'', CloseNode, Score 1, AddText '' b'']"
  using rule_name_only_at_line_start[of hljs_lib "[]" None "''rule : X''" "[]" "''rule''" "Some CHR ''e''" "'' : X''" "''a : b''"]
        exec_rule_colon mid_line_events
  by auto

section \<open>C10: initialization without the engine\<close>

text \<open>
  Claim C10. With \<^verbatim>\<open>hljs\<close> undefined, \<^verbatim>\<open>initializeHighlighting\<close> returns the page as
  it is: nothing is registered, nothing is highlighted, nothing is thrown. With
  \<^verbatim>\<open>hljs\<close> defined, the table is registered under the name \<^verbatim>\<open>antlr\<close> and the
  unprocessed blocks are highlighted with the engine that holds the registration.
\<close>

theorem initializeHighlighting_guard:
  "(hljs_global w = None \<longrightarrow> initializeHighlighting hl w = Inr w)
   \<and> (\<forall>h. hljs_global w = Some h \<longrightarrow>
        initializeHighlighting hl w =
          Inr (w\<lparr> hljs_global := Some (h\<lparr>languages := (languages h)(''antlr'' \<mapsto> antlrLanguage h)\<rparr>),
                  blocks := map (\<lambda>el. if unprocessed el
                      then setAttribute ''data-highlighted'' ''true''
                             (hl (h\<lparr>languages := (languages h)(''antlr'' \<mapsto> antlrLanguage h)\<rparr>) el)
                      else el) (blocks w) \<rparr>))"
  by (simp add: initializeHighlighting_def highlightUnprocessedBlocks_def registerLanguage_def)

text \<open>The theorem at a page without the engine and at the example page.\<close>

theorem initializeHighlighting_guard_witness:
  "initializeHighlighting demo_hl demo_page_no_hljs = Inr demo_page_no_hljs
   \<and> (\<exists>w'. initializeHighlighting demo_hl demo_page = Inr w'
        \<and> map_option (\<lambda>h. languages h ''antlr'') (hljs_global w') = Some (Some (antlrLanguage hljs_lib))
        \<and> blocks w' = blocks demo_page_done)"
  using initializeHighlighting_guard[of demo_page_no_hljs demo_hl]
        initializeHighlighting_guard[of demo_page demo_hl]
  by (simp add: demo_page_no_hljs_def demo_page_def demo_page_done_def demo_hl_def
      unprocessed_def setAttribute_def)

end
